theory Spec2Isabelle
  imports Complex_Main "HOL-Library.Multiset"
begin

unbundle bit_operations_syntax

section \<open>Number conversions\<close>

text \<open>
  \<^verbatim>\<open>(int) x\<close> on a \<^verbatim>\<open>double\<close>, and the implicit conversion of a \<^verbatim>\<open>double\<close> or
  \<^verbatim>\<open>float\<close> to \<^verbatim>\<open>int\<close>, truncate toward zero. A finite floating
  point number is a rational number, so \<open>real\<close> carries its value exactly; values
  outside the range of \<^verbatim>\<open>int\<close> are undefined in C++ and outside the model, as is
  overflow of \<^verbatim>\<open>int\<close> arithmetic.
\<close>

definition int_of_double :: "real \<Rightarrow> int" where
  "int_of_double x = (if 0 \<le> x then \<lfloor>x\<rfloor> else \<lceil>x\<rceil>)"

section \<open>The input routing registry (windowhandlerconstants.cpp)\<close>

text \<open>
  \<^verbatim>\<open>WindowHandlerConstants\<close> keeps, for each of its seven event categories, a
  \<^verbatim>\<open>std::vector<std::pair<int, std::function<void(Args...)>>>\<close>, and three member
  functions that work on the vector of their category only; each is modelled as a function
  of that vector. A callback is an effectful function: calling it changes the world
  outside the registry, a value of type \<open>'s\<close>; it takes its arguments as a tuple.
  \<^verbatim>\<open>std::find_if\<close> stops at the first pair whose id matches, and \<^verbatim>\<open>erase\<close> removes
  that one.
\<close>

type_synonym ('a, 's) callback = "'a \<Rightarrow> 's \<Rightarrow> 's"

type_synonym ('a, 's) callbacks = "(int \<times> ('a, 's) callback) list"

subsection \<open>Cursor position: \<^verbatim>\<open>std::function<void(double, double)>\<close>\<close>

definition addCursorPosCallback ::
  "int \<Rightarrow> (real \<times> real, 's) callback \<Rightarrow> (real \<times> real, 's) callbacks \<Rightarrow> (real \<times> real, 's) callbacks" where
  "addCursorPosCallback i callback cursorPosCallbacks = cursorPosCallbacks @ [(i, callback)]"

fun removeCursorPosCallback ::
  "int \<Rightarrow> (real \<times> real, 's) callbacks \<Rightarrow> (real \<times> real, 's) callbacks" where
  "removeCursorPosCallback i [] = []"
| "removeCursorPosCallback i (element # rest) =
     (if fst element = i then rest else element # removeCursorPosCallback i rest)"

fun handleCursorPosEvent ::
  "int \<Rightarrow> real \<Rightarrow> real \<Rightarrow> (real \<times> real, 's) callbacks \<Rightarrow> 's \<Rightarrow> 's" where
  "handleCursorPosEvent screenId x y [] world = world"
| "handleCursorPosEvent screenId x y (callback # rest) world =
     handleCursorPosEvent screenId x y rest
       (if fst callback = screenId then snd callback (x, y) world else world)"

subsection \<open>Mouse button: \<^verbatim>\<open>std::function<void(int, int, int)>\<close>\<close>

definition addMouseButtonCallback ::
  "int \<Rightarrow> (int \<times> int \<times> int, 's) callback \<Rightarrow> (int \<times> int \<times> int, 's) callbacks \<Rightarrow>
   (int \<times> int \<times> int, 's) callbacks" where
  "addMouseButtonCallback i callback mouseButtonCallbacks = mouseButtonCallbacks @ [(i, callback)]"

fun removeMouseButtonCallback ::
  "int \<Rightarrow> (int \<times> int \<times> int, 's) callbacks \<Rightarrow> (int \<times> int \<times> int, 's) callbacks" where
  "removeMouseButtonCallback i [] = []"
| "removeMouseButtonCallback i (element # rest) =
     (if fst element = i then rest else element # removeMouseButtonCallback i rest)"

fun handleMouseButtonEvent ::
  "int \<Rightarrow> int \<Rightarrow> int \<Rightarrow> int \<Rightarrow> (int \<times> int \<times> int, 's) callbacks \<Rightarrow> 's \<Rightarrow> 's" where
  "handleMouseButtonEvent screenId button action modifiers [] world = world"
| "handleMouseButtonEvent screenId button action modifiers (callback # rest) world =
     handleMouseButtonEvent screenId button action modifiers rest
       (if fst callback = screenId then snd callback (button, action, modifiers) world else world)"

subsection \<open>Key: \<^verbatim>\<open>std::function<void(int, int, int, int)>\<close>\<close>

definition addKeyCallback ::
  "int \<Rightarrow> (int \<times> int \<times> int \<times> int, 's) callback \<Rightarrow> (int \<times> int \<times> int \<times> int, 's) callbacks \<Rightarrow>
   (int \<times> int \<times> int \<times> int, 's) callbacks" where
  "addKeyCallback i callback keyCallbacks = keyCallbacks @ [(i, callback)]"

fun removeKeyCallback ::
  "int \<Rightarrow> (int \<times> int \<times> int \<times> int, 's) callbacks \<Rightarrow> (int \<times> int \<times> int \<times> int, 's) callbacks" where
  "removeKeyCallback i [] = []"
| "removeKeyCallback i (element # rest) =
     (if fst element = i then rest else element # removeKeyCallback i rest)"

fun handleKeyEvent ::
  "int \<Rightarrow> int \<Rightarrow> int \<Rightarrow> int \<Rightarrow> int \<Rightarrow> (int \<times> int \<times> int \<times> int, 's) callbacks \<Rightarrow> 's \<Rightarrow> 's" where
  "handleKeyEvent screenId key scancode action mods [] world = world"
| "handleKeyEvent screenId key scancode action mods (callback # rest) world =
     handleKeyEvent screenId key scancode action mods rest
       (if fst callback = screenId then snd callback (key, scancode, action, mods) world else world)"

subsection \<open>Unicode character: \<^verbatim>\<open>std::function<void(unsigned int)>\<close>\<close>

definition addUnicodeCallback ::
  "int \<Rightarrow> (nat, 's) callback \<Rightarrow> (nat, 's) callbacks \<Rightarrow> (nat, 's) callbacks" where
  "addUnicodeCallback i callback unicodeCallbacks = unicodeCallbacks @ [(i, callback)]"

fun removeUnicodeCallback :: "int \<Rightarrow> (nat, 's) callbacks \<Rightarrow> (nat, 's) callbacks" where
  "removeUnicodeCallback i [] = []"
| "removeUnicodeCallback i (element # rest) =
     (if fst element = i then rest else element # removeUnicodeCallback i rest)"

fun handleUnicodeEvent :: "int \<Rightarrow> nat \<Rightarrow> (nat, 's) callbacks \<Rightarrow> 's \<Rightarrow> 's" where
  "handleUnicodeEvent screenId codepoint [] world = world"
| "handleUnicodeEvent screenId codepoint (callback # rest) world =
     handleUnicodeEvent screenId codepoint rest
       (if fst callback = screenId then snd callback codepoint world else world)"

subsection \<open>File drop: \<^verbatim>\<open>std::function<void(int, const char**)>\<close>\<close>

text \<open>The parameter \<^verbatim>\<open>count\<close> is written \<open>cnt\<close>.\<close>

definition addDropCallback ::
  "int \<Rightarrow> (int \<times> string list, 's) callback \<Rightarrow> (int \<times> string list, 's) callbacks \<Rightarrow>
   (int \<times> string list, 's) callbacks" where
  "addDropCallback i callback dropCallbacks = dropCallbacks @ [(i, callback)]"

fun removeDropCallback ::
  "int \<Rightarrow> (int \<times> string list, 's) callbacks \<Rightarrow> (int \<times> string list, 's) callbacks" where
  "removeDropCallback i [] = []"
| "removeDropCallback i (element # rest) =
     (if fst element = i then rest else element # removeDropCallback i rest)"

fun handleDropEvent ::
  "int \<Rightarrow> int \<Rightarrow> string list \<Rightarrow> (int \<times> string list, 's) callbacks \<Rightarrow> 's \<Rightarrow> 's" where
  "handleDropEvent screenId cnt filenames [] world = world"
| "handleDropEvent screenId cnt filenames (callback # rest) world =
     handleDropEvent screenId cnt filenames rest
       (if fst callback = screenId then snd callback (cnt, filenames) world else world)"

subsection \<open>Scroll: \<^verbatim>\<open>std::function<void(double, double)>\<close>\<close>

definition addScrollCallback ::
  "int \<Rightarrow> (real \<times> real, 's) callback \<Rightarrow> (real \<times> real, 's) callbacks \<Rightarrow> (real \<times> real, 's) callbacks" where
  "addScrollCallback i callback scrollCallbacks = scrollCallbacks @ [(i, callback)]"

fun removeScrollCallback ::
  "int \<Rightarrow> (real \<times> real, 's) callbacks \<Rightarrow> (real \<times> real, 's) callbacks" where
  "removeScrollCallback i [] = []"
| "removeScrollCallback i (element # rest) =
     (if fst element = i then rest else element # removeScrollCallback i rest)"

fun handleScrollEvent ::
  "int \<Rightarrow> real \<Rightarrow> real \<Rightarrow> (real \<times> real, 's) callbacks \<Rightarrow> 's \<Rightarrow> 's" where
  "handleScrollEvent screenId x y [] world = world"
| "handleScrollEvent screenId x y (callback # rest) world =
     handleScrollEvent screenId x y rest
       (if fst callback = screenId then snd callback (x, y) world else world)"

subsection \<open>Framebuffer size: \<^verbatim>\<open>std::function<void(int, int, float)>\<close>\<close>

text \<open>
  \<^verbatim>\<open>handleFramebufferSizeEvent(int screenId, double x, double y, double pixelRatio)\<close>
  calls callbacks that take \<^verbatim>\<open>(int, int, float)\<close>: C++ converts the two sizes to
  \<^verbatim>\<open>int\<close> and the ratio to \<^verbatim>\<open>float\<close> at the call. The rounding of a \<^verbatim>\<open>double\<close> to
  the nearest \<^verbatim>\<open>float\<close> is a parameter of the model, \<open>float_of_double\<close>.
\<close>

definition addFramebufferSizeCallback ::
  "int \<Rightarrow> (int \<times> int \<times> real, 's) callback \<Rightarrow> (int \<times> int \<times> real, 's) callbacks \<Rightarrow>
   (int \<times> int \<times> real, 's) callbacks" where
  "addFramebufferSizeCallback i callback framebufferSizeCallbacks =
     framebufferSizeCallbacks @ [(i, callback)]"

fun removeFramebufferSizeCallback ::
  "int \<Rightarrow> (int \<times> int \<times> real, 's) callbacks \<Rightarrow> (int \<times> int \<times> real, 's) callbacks" where
  "removeFramebufferSizeCallback i [] = []"
| "removeFramebufferSizeCallback i (element # rest) =
     (if fst element = i then rest else element # removeFramebufferSizeCallback i rest)"

fun handleFramebufferSizeEvent ::
  "(real \<Rightarrow> real) \<Rightarrow> int \<Rightarrow> real \<Rightarrow> real \<Rightarrow> real \<Rightarrow> (int \<times> int \<times> real, 's) callbacks \<Rightarrow> 's \<Rightarrow> 's" where
  "handleFramebufferSizeEvent float_of_double screenId x y pixelRatio [] world = world"
| "handleFramebufferSizeEvent float_of_double screenId x y pixelRatio (callback # rest) world =
     handleFramebufferSizeEvent float_of_double screenId x y pixelRatio rest
       (if fst callback = screenId
        then snd callback (int_of_double x, int_of_double y, float_of_double pixelRatio) world
        else world)"

subsection \<open>Sequences of registry operations\<close>

datatype ('a, 's) registry_op = AddCallback int "('a, 's) callback" | RemoveCallback int

text \<open>A sequence of add and remove operations on one category, given its two functions.\<close>

fun apply_registry_op ::
  "(int \<Rightarrow> ('a, 's) callback \<Rightarrow> ('a, 's) callbacks \<Rightarrow> ('a, 's) callbacks) \<Rightarrow>
   (int \<Rightarrow> ('a, 's) callbacks \<Rightarrow> ('a, 's) callbacks) \<Rightarrow>
   ('a, 's) registry_op \<Rightarrow> ('a, 's) callbacks \<Rightarrow> ('a, 's) callbacks" where
  "apply_registry_op add remove (AddCallback i cb) cbs = add i cb cbs"
| "apply_registry_op add remove (RemoveCallback i) cbs = remove i cbs"

definition run_registry_ops ::
  "(int \<Rightarrow> ('a, 's) callback \<Rightarrow> ('a, 's) callbacks \<Rightarrow> ('a, 's) callbacks) \<Rightarrow>
   (int \<Rightarrow> ('a, 's) callbacks \<Rightarrow> ('a, 's) callbacks) \<Rightarrow>
   ('a, 's) registry_op list \<Rightarrow> ('a, 's) callbacks \<Rightarrow> ('a, 's) callbacks" where
  "run_registry_ops add remove ops cbs = fold (apply_registry_op add remove) ops cbs"

text \<open>
  The specification's reading of "the callbacks currently registered under an id, in
  insertion order": each id has a queue of its own; adding appends to the queue of that
  id, removing drops the oldest entry of that id and does nothing to an empty queue.
\<close>

fun registered_spec ::
  "('a, 's) registry_op list \<Rightarrow> (int \<Rightarrow> ('a, 's) callback list) \<Rightarrow> int \<Rightarrow> ('a, 's) callback list" where
  "registered_spec [] reg = reg"
| "registered_spec (AddCallback i cb # ops) reg = registered_spec ops (reg(i := reg i @ [cb]))"
| "registered_spec (RemoveCallback i # ops) reg = registered_spec ops (reg(i := tl (reg i)))"

definition registered_under :: "int \<Rightarrow> ('a, 's) callbacks \<Rightarrow> ('a, 's) callback list" where
  "registered_under i cbs = map snd (filter (\<lambda>e. fst e = i) cbs)"

text \<open>
  What the specification says of a category, for its three functions and the conversion
  \<open>conv\<close> from the arguments of the handle function to what the callbacks receive:
  adding appends; after any sequence of operations on the empty category the handle
  function calls exactly the callbacks registered under the id, oldest first, each with
  the converted arguments; removing drops the first entry whose id matches and no other,
  and changes nothing when no entry matches.
\<close>

definition registry_category ::
  "(int \<Rightarrow> ('a, 's) callback \<Rightarrow> ('a, 's) callbacks \<Rightarrow> ('a, 's) callbacks) \<Rightarrow>
   (int \<Rightarrow> ('a, 's) callbacks \<Rightarrow> ('a, 's) callbacks) \<Rightarrow>
   (int \<Rightarrow> 'b \<Rightarrow> ('a, 's) callbacks \<Rightarrow> 's \<Rightarrow> 's) \<Rightarrow> ('b \<Rightarrow> 'a) \<Rightarrow> bool" where
  "registry_category add remove handle conv =
     ((\<forall>i cb cbs. add i cb cbs = cbs @ [(i, cb)]) \<and>
      (\<forall>i args ops w.
         handle i args (run_registry_ops add remove ops []) w =
           fold (\<lambda>cb. cb (conv args)) (registered_spec ops (\<lambda>j. []) i) w) \<and>
      (\<forall>i A cb B. (\<forall>e \<in> set A. fst e \<noteq> i) \<longrightarrow> remove i (A @ (i, cb) # B) = A @ B) \<and>
      (\<forall>i cbs. (\<forall>e \<in> set cbs. fst e \<noteq> i) \<longrightarrow> remove i cbs = cbs))"

text \<open>
  A registry session used to exercise the theorems: every callback appends the arguments
  it receives, with its name, to the world.
\<close>

definition example_ops :: "('a, ('a \<times> string) list) registry_op list" where
  "example_ops =
     [AddCallback 0 (\<lambda>a w. w @ [(a, ''first'')]),
      AddCallback 1 (\<lambda>a w. w @ [(a, ''other'')]),
      AddCallback 0 (\<lambda>a w. w @ [(a, ''second'')]),
      AddCallback 0 (\<lambda>a w. w @ [(a, ''third'')]),
      RemoveCallback 0,
      RemoveCallback 7]"

definition example_callbacks :: "('a, ('a \<times> string) list) callbacks" where
  "example_callbacks = [(1, \<lambda>a w. w @ [(a, ''a'')]), (2, \<lambda>a w. w @ [(a, ''b'')])]"

section \<open>Widgets and the screen (screen.cpp)\<close>

subsection \<open>Values\<close>

type_synonym wid = nat

type_synonym Vector2i = "int \<times> int"

definition vsub :: "Vector2i \<Rightarrow> Vector2i \<Rightarrow> Vector2i" where
  "vsub p q = (fst p - fst q, snd p - snd q)"

text \<open>Integer division of C++ truncates toward zero; dividing by zero is undefined.\<close>

definition cdiv :: "int \<Rightarrow> int \<Rightarrow> int option" where
  "cdiv a b = (if b = 0 then None else Some (sgn a * sgn b * (\<bar>a\<bar> div \<bar>b\<bar>)))"

text \<open>
  \<^verbatim>\<open>v /= mPixelRatio\<close> on a \<^verbatim>\<open>Vector2i\<close>: the \<^verbatim>\<open>float\<close> ratio is converted to the
  scalar type \<^verbatim>\<open>int\<close> of the vector, and both components are divided by it.
\<close>

definition vdiv :: "Vector2i \<Rightarrow> real \<Rightarrow> Vector2i option" where
  "vdiv p r =
     (case cdiv (fst p) (int_of_double r) of
        None \<Rightarrow> None
      | Some a \<Rightarrow> (case cdiv (snd p) (int_of_double r) of None \<Rightarrow> None | Some b \<Rightarrow> Some (a, b)))"

datatype Cursor = Arrow | IBeam | Crosshair | Hand | HResize | VResize | CursorCount

subsection \<open>The widget objects\<close>

text \<open>
  Widgets are heap objects compared by address; the model names them by a number and
  keeps them in a store. A null pointer is \<open>None\<close>. The classes \<^verbatim>\<open>Widget\<close>,
  \<^verbatim>\<open>Window\<close> and \<^verbatim>\<open>Popup\<close> are declared outside the files at hand; the record holds
  what screen.cpp reads of them through \<^verbatim>\<open>parent()\<close>, \<^verbatim>\<open>focused()\<close>, \<^verbatim>\<open>cursor()\<close>,
  \<^verbatim>\<open>modal()\<close>, \<^verbatim>\<open>parentWindow()\<close> and \<^verbatim>\<open>dynamic_cast\<close>. A popup is a window.
\<close>

datatype widget_class = WidgetClass | WindowClass | PopupClass

record widget =
  parent :: "wid option"
  focused :: bool
  cursor :: Cursor
  wclass :: widget_class
  modal :: bool
  parentWindow :: "wid option"

definition is_Window :: "widget \<Rightarrow> bool" where
  "is_Window w = (wclass w = WindowClass \<or> wclass w = PopupClass)"

definition is_Popup :: "widget \<Rightarrow> bool" where
  "is_Popup w = (wclass w = PopupClass)"

subsection \<open>Events, exceptions and outcomes\<close>

text \<open>
  The virtual event handlers of the widgets are not in the files at hand. The model
  records every call the screen makes to one of them, with the receiver and the
  arguments, and takes what the handler answers (a result, or an exception) from a
  parameter.
\<close>

datatype event =
    FocusEvent wid bool
  | KeyboardEvent wid int int int int
  | KeyboardCharacterEvent wid nat
  | MouseDragEvent wid Vector2i Vector2i int int
  | MouseMotionEvent wid Vector2i Vector2i int int
  | MouseButtonEvent wid Vector2i int bool int
  | ScrollEvent wid Vector2i "real \<times> real"
  | ResizeEvent wid Vector2i
  | DropEvent wid "string list"

datatype exn = StdException string | OtherException

text \<open>
  How a callback of the screen ends: it returns, an exception leaves it, the process is
  ended by \<^verbatim>\<open>abort()\<close> after the diagnostic was written to \<^verbatim>\<open>std::cerr\<close>, or the
  behaviour is undefined (a null pointer dereferenced, an integer divided by zero).
\<close>

datatype outcome = Returned bool | Thrown exn | Aborted string | Fault

record state =
  screen :: wid
  mChildren :: "wid list"
  mFocusPath :: "wid list"
  mDragActive :: bool
  mDragWidget :: "wid option"
  mMousePos :: Vector2i
  mMouseState :: int
  mModifiers :: int
  mLastInteraction :: real
  mSize :: Vector2i
  mPixelRatio :: real
  mCursor :: Cursor
  widgets :: "wid \<Rightarrow> widget"
  delivered :: "event list"

text \<open>
  What the screen takes from its surroundings: the registry's time callback (\<open>None\<close>
  while it is not set) and its action and button codes, whether the file was compiled
  for \<^verbatim>\<open>_WIN32\<close> or \<^verbatim>\<open>__linux__\<close>, the hit test and geometry of \<^verbatim>\<open>Widget\<close>, and
  the answers of the event handlers.
\<close>

record env =
  getTimeCallback :: "real option"
  mousePress :: int
  mouseRelease :: int
  primaryMouseButton :: int
  secondaryMouseButton :: int
  scaled :: bool
  findWidget :: "Vector2i \<Rightarrow> wid option"
  contains :: "wid \<Rightarrow> Vector2i \<Rightarrow> bool"
  absolutePosition :: "wid \<Rightarrow> Vector2i"
  respond :: "event \<Rightarrow> exn + bool"

definition getTime :: "env \<Rightarrow> exn + real" where
  "getTime e =
     (case getTimeCallback e of
        None \<Rightarrow> Inl (StdException ''getTimeCallback not initialized'')
      | Some t \<Rightarrow> Inr t)"

definition deliver :: "env \<Rightarrow> event \<Rightarrow> state \<Rightarrow> (exn + bool) \<times> state" where
  "deliver e ev s = (respond e ev, s\<lparr>delivered := delivered s @ [ev]\<rparr>)"

text \<open>
  Modelled from the spec: \<^verbatim>\<open>Widget::focusEvent\<close>, whose body is not in the files at
  hand. The specification's focus path invariant has the \<^verbatim>\<open>focused()\<close> flag of a widget
  follow the notifications it receives; screen.cpp ignores what the handler returns.
\<close>

definition focusEvent :: "wid \<Rightarrow> bool \<Rightarrow> state \<Rightarrow> state" where
  "focusEvent w f s =
     s\<lparr>widgets := (widgets s)(w := (widgets s w)\<lparr>focused := f\<rparr>),
       delivered := delivered s @ [FocusEvent w f]\<rparr>"

text \<open>\<^verbatim>\<open>try { ... } catch (const std::exception &e) { std::cerr << ...; abort(); }\<close>\<close>

definition catch_abort :: "outcome \<times> state \<Rightarrow> outcome \<times> state" where
  "catch_abort r =
     (case fst r of
        Thrown (StdException what) \<Rightarrow>
          (Aborted (''Caught exception in event handler: '' @ what), snd r)
      | _ \<Rightarrow> r)"

definition answer :: "(exn + bool) \<times> state \<Rightarrow> outcome \<times> state" where
  "answer r = (case fst r of Inl x \<Rightarrow> (Thrown x, snd r) | Inr b \<Rightarrow> (Returned b, snd r))"

subsection \<open>Keyboard dispatch\<close>

text \<open>
  \<^verbatim>\<open>for (auto it = mFocusPath.rbegin() + 1; it != mFocusPath.rend(); ++it)\<close> runs over
  the stored path backwards and leaves out its last entry.
\<close>

fun keyboardEvent_loop :: "env \<Rightarrow> (wid \<Rightarrow> event) \<Rightarrow> wid list \<Rightarrow> state \<Rightarrow> outcome \<times> state" where
  "keyboardEvent_loop e ev [] s = (Returned False, s)"
| "keyboardEvent_loop e ev (w # ws) s =
     (if focused (widgets s w) then
        (case deliver e (ev w) s of
           (Inl x, s') \<Rightarrow> (Thrown x, s')
         | (Inr True, s') \<Rightarrow> (Returned True, s')
         | (Inr False, s') \<Rightarrow> keyboardEvent_loop e ev ws s')
      else keyboardEvent_loop e ev ws s)"

definition keyboardEvent :: "env \<Rightarrow> int \<Rightarrow> int \<Rightarrow> int \<Rightarrow> int \<Rightarrow> state \<Rightarrow> outcome \<times> state" where
  "keyboardEvent e key scancode action modifiers s =
     (if length (mFocusPath s) > 0 then
        keyboardEvent_loop e (\<lambda>w. KeyboardEvent w key scancode action modifiers)
          (tl (rev (mFocusPath s))) s
      else (Returned False, s))"

definition keyboardCharacterEvent :: "env \<Rightarrow> nat \<Rightarrow> state \<Rightarrow> outcome \<times> state" where
  "keyboardCharacterEvent e codepoint s =
     (if length (mFocusPath s) > 0 then
        keyboardEvent_loop e (\<lambda>w. KeyboardCharacterEvent w codepoint)
          (tl (rev (mFocusPath s))) s
      else (Returned False, s))"

definition keyCallbackEvent :: "env \<Rightarrow> int \<Rightarrow> int \<Rightarrow> int \<Rightarrow> int \<Rightarrow> state \<Rightarrow> outcome \<times> state" where
  "keyCallbackEvent e key scancode action mods s =
     (case getTime e of
        Inl x \<Rightarrow> (Thrown x, s)
      | Inr t \<Rightarrow>
          catch_abort (keyboardEvent e key scancode action mods (s\<lparr>mLastInteraction := t\<rparr>)))"

definition charCallbackEvent :: "env \<Rightarrow> nat \<Rightarrow> state \<Rightarrow> outcome \<times> state" where
  "charCallbackEvent e codepoint s =
     (case getTime e of
        Inl x \<Rightarrow> (Thrown x, s)
      | Inr t \<Rightarrow> catch_abort (keyboardCharacterEvent e codepoint (s\<lparr>mLastInteraction := t\<rparr>)))"

text \<open>
  The specification's reading of the keyboard walk: the path entries from the leaf
  rootward (the order in which the path is stored), the screen left out, stopping at
  the first handler that reports the event handled.
\<close>

definition keyboardEvent_spec :: "env \<Rightarrow> int \<Rightarrow> int \<Rightarrow> int \<Rightarrow> int \<Rightarrow> state \<Rightarrow> outcome \<times> state" where
  "keyboardEvent_spec e key scancode action modifiers s =
     keyboardEvent_loop e (\<lambda>w. KeyboardEvent w key scancode action modifiers)
       (butlast (mFocusPath s)) s"

subsection \<open>Drop, scroll and resize\<close>

definition dropCallbackEvent :: "env \<Rightarrow> string list \<Rightarrow> state \<Rightarrow> outcome \<times> state" where
  "dropCallbackEvent e filenames s = answer (deliver e (DropEvent (screen s) filenames) s)"

text \<open>
  The modal gate shared by the button and the scroll callback: with more than one path
  entry, the entry before the last is looked at; when it is a modal window that does not
  contain the recorded mouse position, the callback returns \<^verbatim>\<open>false\<close> at once.
\<close>

definition modal_gate :: "env \<Rightarrow> state \<Rightarrow> bool" where
  "modal_gate e s =
     (length (mFocusPath s) > 1 \<and>
      (let window = mFocusPath s ! (length (mFocusPath s) - 2) in
         is_Window (widgets s window) \<and> modal (widgets s window) \<and>
         \<not> contains e window (mMousePos s)))"

definition scrollCallbackEvent :: "env \<Rightarrow> real \<Rightarrow> real \<Rightarrow> state \<Rightarrow> outcome \<times> state" where
  "scrollCallbackEvent e x y s =
     (case getTime e of
        Inl ex \<Rightarrow> (Thrown ex, s)
      | Inr t \<Rightarrow>
          (let s1 = s\<lparr>mLastInteraction := t\<rparr> in
             catch_abort
               (if modal_gate e s1 then (Returned False, s1)
                else answer (deliver e (ScrollEvent (screen s1) (mMousePos s1) (x, y)) s1))))"

definition resizeCallbackEvent :: "env \<Rightarrow> int \<Rightarrow> int \<Rightarrow> real \<Rightarrow> state \<Rightarrow> outcome \<times> state" where
  "resizeCallbackEvent e w h pixelRatio s =
     (let s1 = s\<lparr>mSize := (w, h), mPixelRatio := pixelRatio\<rparr> in
        (case (if scaled e then vdiv (mSize s1) (mPixelRatio s1) else Some (mSize s1)) of
           None \<Rightarrow> (Fault, s1)
         | Some sz \<Rightarrow>
             (let s2 = s1\<lparr>mSize := sz\<rparr> in
                if mSize s2 = (0, 0) then (Returned False, s2)
                else
                  (case getTime e of
                     Inl x \<Rightarrow> (Thrown x, s2)
                   | Inr t \<Rightarrow>
                       (let s3 = s2\<lparr>mLastInteraction := t\<rparr> in
                          catch_abort (answer (deliver e (ResizeEvent (screen s3) (mSize s3)) s3)))))))"

subsection \<open>Cursor movement\<close>

text \<open>
  The end of the \<^verbatim>\<open>try\<close> block of \<^verbatim>\<open>cursorPosCallbackEvent\<close>: the generic motion
  event when nothing has handled the movement yet, then the new mouse position.
\<close>

definition cursorPos_motion :: "env \<Rightarrow> Vector2i \<Rightarrow> bool \<Rightarrow> state \<Rightarrow> outcome \<times> state" where
  "cursorPos_motion e p ret s =
     (if \<not> ret then
        (case deliver e
                (MouseMotionEvent (screen s) p (vsub p (mMousePos s)) (mMouseState s) (mModifiers s)) s of
           (Inl x, s') \<Rightarrow> (Thrown x, s')
         | (Inr r, s') \<Rightarrow> (Returned r, s'\<lparr>mMousePos := p\<rparr>))
      else (Returned ret, s\<lparr>mMousePos := p\<rparr>))"

definition cursorPos_body :: "env \<Rightarrow> Vector2i \<Rightarrow> state \<Rightarrow> outcome \<times> state" where
  "cursorPos_body e p s =
     (if \<not> mDragActive s then
        cursorPos_motion e p False
          (case findWidget e p of
             None \<Rightarrow> s
           | Some widget \<Rightarrow>
               if cursor (widgets s widget) \<noteq> mCursor s
               then s\<lparr>mCursor := cursor (widgets s widget)\<rparr> else s)
      else
        (case mDragWidget s of
           None \<Rightarrow> (Fault, s)
         | Some d \<Rightarrow>
             (case parent (widgets s d) of
                None \<Rightarrow> (Fault, s)
              | Some q \<Rightarrow>
                  (case deliver e
                          (MouseDragEvent d (vsub p (absolutePosition e q)) (vsub p (mMousePos s))
                             (mMouseState s) (mModifiers s)) s of
                     (Inl x, s') \<Rightarrow> (Thrown x, s')
                   | (Inr ret, s') \<Rightarrow> cursorPos_motion e p ret s'))))"

text \<open>The position the callback works with: the cast, the platform's scaling, the fixed offset.\<close>

definition cursorPos_convert :: "env \<Rightarrow> real \<Rightarrow> real \<Rightarrow> state \<Rightarrow> Vector2i option" where
  "cursorPos_convert e x y s =
     map_option (\<lambda>p. vsub p (1, 2))
       (if scaled e then vdiv (int_of_double x, int_of_double y) (mPixelRatio s)
        else Some (int_of_double x, int_of_double y))"

definition cursorPosCallbackEvent :: "env \<Rightarrow> real \<Rightarrow> real \<Rightarrow> state \<Rightarrow> outcome \<times> state" where
  "cursorPosCallbackEvent e x y s =
     (case cursorPos_convert e x y s of
        None \<Rightarrow> (Fault, s)
      | Some p \<Rightarrow>
          (case getTime e of
             Inl ex \<Rightarrow> (Thrown ex, s)
           | Inr t \<Rightarrow> catch_abort (cursorPos_body e p (s\<lparr>mLastInteraction := t\<rparr>))))"

subsection \<open>Window stacking\<close>

text \<open>The first loop of the \<^verbatim>\<open>do\<close> body: the last index at which the window stands, 0 without one.\<close>

fun baseIndex_loop :: "wid \<Rightarrow> wid list \<Rightarrow> nat \<Rightarrow> nat \<Rightarrow> nat" where
  "baseIndex_loop window [] index baseIndex = baseIndex"
| "baseIndex_loop window (c # cs) index baseIndex =
     baseIndex_loop window cs (Suc index) (if c = window then index else baseIndex)"

text \<open>\<^verbatim>\<open>pw && pw->parentWindow() == window\<close>\<close>

definition isPopupOf :: "(wid \<Rightarrow> widget) \<Rightarrow> wid \<Rightarrow> wid \<Rightarrow> bool" where
  "isPopupOf ws window c = (is_Popup (ws c) \<and> parentWindow (ws c) = Some window)"

text \<open>The second loop: the first popup of the window that stands before \<open>baseIndex\<close>.\<close>

fun findPopup_loop :: "(wid \<Rightarrow> widget) \<Rightarrow> wid \<Rightarrow> nat \<Rightarrow> wid list \<Rightarrow> nat \<Rightarrow> wid option" where
  "findPopup_loop ws window baseIndex [] index = None"
| "findPopup_loop ws window baseIndex (c # cs) index =
     (if isPopupOf ws window c \<and> index < baseIndex then Some c
      else findPopup_loop ws window baseIndex cs (Suc index))"

text \<open>
  The \<^verbatim>\<open>do ... while (changed)\<close> loop of \<^verbatim>\<open>moveWindowToFront(window)\<close> on the child
  sequence. When a popup is found, the recursive call \<^verbatim>\<open>moveWindowToFront(pw)\<close> moves
  the popup to the end and runs the loop for the popup; then the loop for the window goes
  round again. Neither the recursion nor the loop is bounded by the code, so the function
  is partial: \<open>None\<close> stands for a call that does not return.
\<close>

partial_function (option) topoLoop :: "(wid \<Rightarrow> widget) \<Rightarrow> wid \<Rightarrow> wid list \<Rightarrow> wid list option" where
  "topoLoop ws window cs =
     (case findPopup_loop ws window (baseIndex_loop window cs 0 0) cs 0 of
        None \<Rightarrow> Some cs
      | Some pw \<Rightarrow> Option.bind (topoLoop ws pw (removeAll pw cs @ [pw])) (topoLoop ws window))"

definition moveWindowToFront :: "wid \<Rightarrow> state \<Rightarrow> state option" where
  "moveWindowToFront window s =
     map_option (\<lambda>cs. s\<lparr>mChildren := cs\<rparr>)
       (topoLoop (widgets s) window (removeAll window (mChildren s) @ [window]))"

fun moveWindowsToFront :: "wid list \<Rightarrow> state \<Rightarrow> state option" where
  "moveWindowsToFront [] s = Some s"
| "moveWindowsToFront (window # windows) s =
     Option.bind (moveWindowToFront window s) (moveWindowsToFront windows)"

subsection \<open>Focus\<close>

fun lostFocus_loop :: "wid list \<Rightarrow> state \<Rightarrow> state" where
  "lostFocus_loop [] s = s"
| "lostFocus_loop (w # ws) s =
     lostFocus_loop ws (if \<not> focused (widgets s w) then s else focusEvent w False s)"

fun gainFocus_loop :: "wid list \<Rightarrow> state \<Rightarrow> state" where
  "gainFocus_loop [] s = s"
| "gainFocus_loop (w # ws) s = gainFocus_loop ws (focusEvent w True s)"

text \<open>
  \<^verbatim>\<open>while (widget) { ... widget = widget->parent(); }\<close> follows the parent pointers
  until it meets a null pointer; \<open>None\<close> stands for a walk that never does.
\<close>

partial_function (option) collect_loop ::
  "(wid \<Rightarrow> widget) \<Rightarrow> wid option \<Rightarrow> wid list \<Rightarrow> wid option \<Rightarrow> (wid list \<times> wid option) option" where
  "collect_loop ws widget path window =
     (case widget of
        None \<Rightarrow> Some (path, window)
      | Some w \<Rightarrow>
          collect_loop ws (parent (ws w)) (path @ [w])
            (if is_Window (ws w) then Some w else window))"

definition updateFocus :: "wid option \<Rightarrow> state \<Rightarrow> state option" where
  "updateFocus widget s =
     (let s1 = (lostFocus_loop (mFocusPath s) s)\<lparr>mFocusPath := []\<rparr> in
        (case collect_loop (widgets s1) widget (mFocusPath s1) None of
           None \<Rightarrow> None
         | Some (path, window) \<Rightarrow>
             (let s2 = s1\<lparr>mFocusPath := path\<rparr>;
                  s3 = gainFocus_loop (rev (mFocusPath s2)) s2
              in (case window of None \<Rightarrow> Some s3 | Some w \<Rightarrow> moveWindowToFront w s3))))"

text \<open>
  Modelled from the spec: \<^verbatim>\<open>Widget::removeChild\<close>, whose body is not in the files at
  hand: it detaches the widget from the child sequence.
\<close>

definition removeChild :: "wid \<Rightarrow> state \<Rightarrow> state" where
  "removeChild w s = s\<lparr>mChildren := removeAll w (mChildren s)\<rparr>"

definition disposeWindow :: "wid \<Rightarrow> state \<Rightarrow> state" where
  "disposeWindow window s =
     (let s1 = (if window \<in> set (mFocusPath s) then s\<lparr>mFocusPath := []\<rparr> else s);
          s2 = (if mDragWidget s1 = Some window then s1\<lparr>mDragWidget := None\<rparr> else s1)
      in removeChild window s2)"

subsection \<open>Mouse buttons\<close>

text \<open>
  \<^verbatim>\<open>1 << button\<close> is defined in C++ for a button number from 0 up to the width of
  \<^verbatim>\<open>int\<close>; the backends number the mouse buttons from 0 to 7.
\<close>

text \<open>
  The synthetic release for the drag target; \<open>Some\<close> is a way the callback ends here
  (an exception, or a null pointer dereferenced), \<open>None\<close> lets it go on.
\<close>

definition mouseButton_release ::
  "env \<Rightarrow> int \<Rightarrow> int \<Rightarrow> wid option \<Rightarrow> state \<Rightarrow> outcome option \<times> state" where
  "mouseButton_release e button action dropWidget s =
     (if mDragActive s \<and> action = mouseRelease e \<and> dropWidget \<noteq> mDragWidget s then
        (case mDragWidget s of
           None \<Rightarrow> (Some Fault, s)
         | Some d \<Rightarrow>
             (case parent (widgets s d) of
                None \<Rightarrow> (Some Fault, s)
              | Some q \<Rightarrow>
                  (case deliver e
                          (MouseButtonEvent d (vsub (mMousePos s) (absolutePosition e q)) button False
                             (mModifiers s)) s of
                     (Inl x, s') \<Rightarrow> (Some (Thrown x), s')
                   | (Inr r, s') \<Rightarrow> (None, s'))))
      else (None, s))"

definition mouseButton_drag :: "env \<Rightarrow> int \<Rightarrow> int \<Rightarrow> state \<Rightarrow> state option" where
  "mouseButton_drag e button action s =
     (if action = mousePress e \<and>
         (button = primaryMouseButton e \<or> button = secondaryMouseButton e) then
        (let s1 = s\<lparr>mDragWidget := findWidget e (mMousePos s)\<rparr>;
             s2 = (if mDragWidget s1 = Some (screen s1) then s1\<lparr>mDragWidget := None\<rparr> else s1);
             s3 = s2\<lparr>mDragActive := (mDragWidget s2 \<noteq> None)\<rparr>
         in if \<not> mDragActive s3 then updateFocus None s3 else Some s3)
      else Some (s\<lparr>mDragActive := False, mDragWidget := None\<rparr>))"

definition mouseButton_body :: "env \<Rightarrow> int \<Rightarrow> int \<Rightarrow> state \<Rightarrow> (outcome \<times> state) option" where
  "mouseButton_body e button action s =
     (if modal_gate e s then Some (Returned False, s)
      else
        (let s1 = s\<lparr>mMouseState :=
                      (if action = mousePress e then mMouseState s OR push_bit (nat button) 1
                       else mMouseState s AND NOT (push_bit (nat button) 1))\<rparr>;
             dropWidget = findWidget e (mMousePos s1)
         in (case mouseButton_release e button action dropWidget s1 of
               (Some x, s2) \<Rightarrow> Some (x, s2)
             | (None, s2) \<Rightarrow>
                 (case mouseButton_drag e button action s2 of
                    None \<Rightarrow> None
                  | Some s3 \<Rightarrow>
                      Some (answer (deliver e
                        (MouseButtonEvent (screen s3) (mMousePos s3) button (action = mousePress e)
                           (mModifiers s3)) s3))))))"

definition mouseButtonCallbackEvent ::
  "env \<Rightarrow> int \<Rightarrow> int \<Rightarrow> int \<Rightarrow> state \<Rightarrow> (outcome \<times> state) option" where
  "mouseButtonCallbackEvent e button action modifiers s =
     (let s1 = s\<lparr>mModifiers := modifiers\<rparr> in
        (case getTime e of
           Inl x \<Rightarrow> Some (Thrown x, s1)
         | Inr t \<Rightarrow> map_option catch_abort (mouseButton_body e button action (s1\<lparr>mLastInteraction := t\<rparr>))))"

section \<open>A scene to run the model on\<close>

text \<open>
  The screen is widget 0. Window 1 is modal and holds button 2; popup 3 belongs to
  window 1; window 4 stands alone. Windows and the popup are children of the screen.
  The button has the focus, and a drag of window 1 is in progress.
\<close>

definition plain_widget :: widget where
  "plain_widget =
     \<lparr>parent = None, focused = False, cursor = Arrow, wclass = WidgetClass, modal = False,
      parentWindow = None\<rparr>"

definition example_widgets :: "wid \<Rightarrow> widget" where
  "example_widgets =
     (\<lambda>w. plain_widget)
       (0 := plain_widget\<lparr>focused := True\<rparr>,
        1 := plain_widget\<lparr>parent := Some 0, focused := True, wclass := WindowClass, modal := True\<rparr>,
        2 := plain_widget\<lparr>parent := Some 1, focused := True, cursor := Hand\<rparr>,
        3 := plain_widget\<lparr>parent := Some 0, wclass := PopupClass, parentWindow := Some 1\<rparr>,
        4 := plain_widget\<lparr>parent := Some 0, wclass := WindowClass\<rparr>)"

definition example_state :: state where
  "example_state =
     \<lparr>screen = 0, mChildren = [1, 3, 4], mFocusPath = [2, 1, 0], mDragActive = True,
      mDragWidget = Some 1, mMousePos = (200, 50), mMouseState = 1, mModifiers = 0,
      mLastInteraction = 5, mSize = (500, 700), mPixelRatio = 1, mCursor = Arrow,
      widgets = example_widgets, delivered = []\<rparr>"

text \<open>
  Window 1 lies at (20, 30) and is 100 wide and 100 high. The window and the button both
  report a key as handled, drag events are declined, and the drop handler raises.
\<close>

definition example_respond :: "event \<Rightarrow> exn + bool" where
  "example_respond ev =
     (case ev of
        KeyboardEvent w k sc a m \<Rightarrow> Inr (w = 1 \<or> w = 2)
      | DropEvent w fs \<Rightarrow> Inl (StdException ''cannot open'')
      | _ \<Rightarrow> Inr False)"

definition example_env :: env where
  "example_env =
     \<lparr>getTimeCallback = Some 6, mousePress = 1, mouseRelease = 0, primaryMouseButton = 0,
      secondaryMouseButton = 1, scaled = True,
      findWidget = (\<lambda>p. None),
      contains = (\<lambda>w p. w = 1 \<and> 20 \<le> fst p \<and> fst p < 120 \<and> 30 \<le> snd p \<and> snd p < 130),
      absolutePosition = (\<lambda>w. if w = 1 then (20, 30) else (0, 0)),
      respond = example_respond\<rparr>"

section \<open>Notions the theorems are stated with\<close>

subsection \<open>Keyboard walk\<close>

text \<open>
  A walk over a list of receivers that stops after the first answer other than "not
  handled": the events it delivers and the way it ends.
\<close>

definition declines :: "env \<Rightarrow> (wid \<Rightarrow> event) \<Rightarrow> wid \<Rightarrow> bool" where
  "declines e ev w = (respond e (ev w) = Inr False)"

definition walk_events :: "env \<Rightarrow> (wid \<Rightarrow> event) \<Rightarrow> wid list \<Rightarrow> event list" where
  "walk_events e ev ws = map ev (takeWhile (declines e ev) ws @ take 1 (dropWhile (declines e ev) ws))"

definition walk_outcome :: "env \<Rightarrow> (wid \<Rightarrow> event) \<Rightarrow> wid list \<Rightarrow> outcome" where
  "walk_outcome e ev ws =
     (case dropWhile (declines e ev) ws of
        [] \<Rightarrow> Returned False
      | w # rest \<Rightarrow> (case respond e (ev w) of Inl x \<Rightarrow> Thrown x | Inr b \<Rightarrow> Returned b))"

definition focused_rootward :: "state \<Rightarrow> wid list" where
  "focused_rootward s = filter (\<lambda>w. focused (widgets s w)) (rev (butlast (mFocusPath s)))"

text \<open>An environment in which every handler raises a \<^verbatim>\<open>std::runtime_error\<close>.\<close>

definition throwing_env :: env where
  "throwing_env = example_env\<lparr>respond := (\<lambda>ev. Inl (StdException ''cannot open''))\<rparr>"

subsection \<open>Order in the child sequence\<close>

text \<open>
  \<open>index_of w xs\<close> is the first index at which \<open>w\<close> stands in \<open>xs\<close>.
  \<open>before xs a b\<close> says that \<open>a\<close> stands before \<open>b\<close> in a sequence without
  repetitions: of the two, \<open>a\<close> comes first.
\<close>

definition index_of :: "wid \<Rightarrow> wid list \<Rightarrow> nat" where
  "index_of w xs = length (takeWhile (\<lambda>x. x \<noteq> w) xs)"

definition before :: "wid list \<Rightarrow> wid \<Rightarrow> wid \<Rightarrow> bool" where
  "before xs a b = (filter (\<lambda>x. x = a \<or> x = b) xs = [a, b])"

text \<open>
  The stacking invariant of the specification: a popup stands at a greater index than
  the window that owns it, whenever both are in the sequence. \<open>owner_first\<close> is the
  same statement in terms of \<open>before\<close>.
\<close>

definition popups_above :: "(wid \<Rightarrow> widget) \<Rightarrow> wid list \<Rightarrow> bool" where
  "popups_above ws cs =
     (\<forall>i j. i < length cs \<and> j < length cs \<and> isPopupOf ws (cs ! i) (cs ! j) \<longrightarrow> i < j)"

definition owner_first :: "(wid \<Rightarrow> widget) \<Rightarrow> wid list \<Rightarrow> bool" where
  "owner_first ws cs =
     (\<forall>p c. p \<in> set cs \<and> c \<in> set cs \<and> isPopupOf ws p c \<longrightarrow> before cs p c)"

text \<open>The ownership relation among the widgets of a set: pairs of an owner and its popup.\<close>

definition owns :: "(wid \<Rightarrow> widget) \<Rightarrow> wid set \<Rightarrow> (wid \<times> wid) set" where
  "owns ws S = {(p, c). p \<in> S \<and> c \<in> S \<and> isPopupOf ws p c}"

text \<open>
  \<open>reorder M cs R\<close>: \<open>R\<close> holds the widgets of \<open>cs\<close>, each once; the widgets of
  \<open>M\<close> stand behind all others, and the others keep their order.
  \<open>after_owner ws M R\<close>: every popup in \<open>R\<close> whose owner is in \<open>M\<close> stands behind
  its owner.
\<close>

definition reorder :: "wid set \<Rightarrow> wid list \<Rightarrow> wid list \<Rightarrow> bool" where
  "reorder M cs R =
     (distinct R \<and> set R = set cs \<and>
      (\<forall>a b. a \<in> set cs \<and> b \<in> set cs \<and> a \<notin> M \<and> b \<in> M \<longrightarrow> before R a b) \<and>
      (\<forall>a b. a \<notin> M \<and> b \<notin> M \<longrightarrow> before R a b = before cs a b))"

definition after_owner :: "(wid \<Rightarrow> widget) \<Rightarrow> wid set \<Rightarrow> wid list \<Rightarrow> bool" where
  "after_owner ws M R =
     (\<forall>p c. p \<in> M \<and> p \<in> set R \<and> c \<in> set R \<and> isPopupOf ws p c \<longrightarrow> before R p c)"

text \<open>Two popups that own each other.\<close>

definition cyclic_widgets :: "wid \<Rightarrow> widget" where
  "cyclic_widgets =
     (\<lambda>w. plain_widget)
       (5 := plain_widget\<lparr>wclass := PopupClass, parentWindow := Some 6\<rparr>,
        6 := plain_widget\<lparr>wclass := PopupClass, parentWindow := Some 5\<rparr>)"

subsection \<open>Ancestor chains\<close>

text \<open>
  \<open>is_chain ws (Some w) xs\<close>: \<open>xs\<close> lists \<open>w\<close>, its parent, the parent of that one
  and so on, and ends with a widget that has no parent (the root of the tree \<open>w\<close> is in).
\<close>

fun is_chain :: "(wid \<Rightarrow> widget) \<Rightarrow> wid option \<Rightarrow> wid list \<Rightarrow> bool" where
  "is_chain ws None xs = (xs = [])"
| "is_chain ws (Some w) [] = False"
| "is_chain ws (Some w) (x # xs) = (x = w \<and> is_chain ws (parent (ws w)) xs)"

text \<open>Two stores that agree on the parent links, the classes and the owners of the popups.\<close>

definition same_structure :: "(wid \<Rightarrow> widget) \<Rightarrow> (wid \<Rightarrow> widget) \<Rightarrow> bool" where
  "same_structure ws ws' =
     (\<forall>w. parent (ws' w) = parent (ws w) \<and> wclass (ws' w) = wclass (ws w) \<and>
          parentWindow (ws' w) = parentWindow (ws w))"

section \<open>Theorems\<close>

subsection \<open>Registry\<close>

lemma registry_categoryI:
  assumes add: "\<And>i cb cbs. add i cb cbs = cbs @ [(i, cb)]"
    and rem_Nil: "\<And>i. remove i [] = []"
    and rem_Cons: "\<And>i e rest. remove i (e # rest) = (if fst e = i then rest else e # remove i rest)"
    and han: "\<And>i args cbs w. handle i args cbs w = fold (\<lambda>cb. cb (conv args)) (registered_under i cbs) w"
  shows "registry_category add remove handle conv"
proof -
  have reg_add: "(\<lambda>j. registered_under j (add k cb cbs)) =
      (\<lambda>j. registered_under j cbs)(k := registered_under k cbs @ [cb])" for k cb cbs
    by (auto simp: fun_eq_iff registered_under_def add)
  have reg_rem1: "registered_under i (remove j cbs) =
      (if j = i then tl (registered_under i cbs) else registered_under i cbs)" for i j cbs
    by (induction cbs) (auto simp add: registered_under_def rem_Nil rem_Cons)
  have reg_rem: "(\<lambda>j. registered_under j (remove k cbs)) =
      (\<lambda>j. registered_under j cbs)(k := tl (registered_under k cbs))" for k cbs
    by (auto simp: fun_eq_iff reg_rem1)
  have run: "registered_under i (run_registry_ops add remove ops cbs) =
      registered_spec ops (\<lambda>j. registered_under j cbs) i" for i ops cbs
  proof (induction ops arbitrary: cbs)
    case Nil
    then show ?case by (simp add: run_registry_ops_def)
  next
    case (Cons op ops)
    from Cons[of "apply_registry_op add remove op cbs"] show ?case
      by (cases op) (simp_all add: run_registry_ops_def reg_add reg_rem)
  qed
  have run0: "registered_under i (run_registry_ops add remove ops []) =
      registered_spec ops (\<lambda>j. []) i" for i ops
    using run[of i ops "[]"] by (simp add: registered_under_def)
  have first: "remove i (A @ (i, cb) # B) = A @ B" if "\<forall>e \<in> set A. fst e \<noteq> i" for i A cb B
    using that by (induction A) (auto simp: rem_Cons)
  have none: "remove i cbs = cbs" if "\<forall>e \<in> set cbs. fst e \<noteq> i" for i cbs
    using that by (induction cbs) (auto simp: rem_Nil rem_Cons)
  show ?thesis
    unfolding registry_category_def
    by (intro conjI allI impI) (simp_all add: add han run0 first none)
qed

lemma handleCursorPosEvent_fold:
  "handleCursorPosEvent i x y cbs w = fold (\<lambda>cb. cb (x, y)) (registered_under i cbs) w"
  by (induction cbs arbitrary: w) (simp_all add: registered_under_def)

lemma handleMouseButtonEvent_fold:
  "handleMouseButtonEvent i b a m cbs w = fold (\<lambda>cb. cb (b, a, m)) (registered_under i cbs) w"
  by (induction cbs arbitrary: w) (simp_all add: registered_under_def)

lemma handleKeyEvent_fold:
  "handleKeyEvent i k sc a m cbs w = fold (\<lambda>cb. cb (k, sc, a, m)) (registered_under i cbs) w"
  by (induction cbs arbitrary: w) (simp_all add: registered_under_def)

lemma handleUnicodeEvent_fold:
  "handleUnicodeEvent i c cbs w = fold (\<lambda>cb. cb c) (registered_under i cbs) w"
  by (induction cbs arbitrary: w) (simp_all add: registered_under_def)

lemma handleDropEvent_fold:
  "handleDropEvent i n fs cbs w = fold (\<lambda>cb. cb (n, fs)) (registered_under i cbs) w"
  by (induction cbs arbitrary: w) (simp_all add: registered_under_def)

lemma handleScrollEvent_fold:
  "handleScrollEvent i x y cbs w = fold (\<lambda>cb. cb (x, y)) (registered_under i cbs) w"
  by (induction cbs arbitrary: w) (simp_all add: registered_under_def)

lemma handleFramebufferSizeEvent_fold:
  "handleFramebufferSizeEvent f i x y r cbs w =
     fold (\<lambda>cb. cb (int_of_double x, int_of_double y, f r)) (registered_under i cbs) w"
  by (induction cbs arbitrary: w) (simp_all add: registered_under_def)

text \<open>
  C7 (as the code has it). In every one of the seven categories, after any sequence of add
  and remove operations on an empty category, \<^verbatim>\<open>handleXEvent(id, args)\<close> calls exactly
  the callbacks registered under \<open>id\<close> at that moment (the queue of \<open>id\<close> in the
  specification's reading), oldest first, and no callback of another id;
  \<^verbatim>\<open>removeXCallback(id)\<close> removes the first entry whose id matches and nothing else, and
  changes nothing when no entry matches. The callbacks of the cursor position, mouse
  button, key, character, drop and scroll categories receive the arguments as given. The
  callbacks of the framebuffer size category receive the two sizes converted from
  \<^verbatim>\<open>double\<close> to \<^verbatim>\<open>int\<close> and the ratio converted to \<^verbatim>\<open>float\<close>: integer sizes and a
  ratio that is a \<^verbatim>\<open>float\<close> arrive unchanged, other values do not.
\<close>

theorem registry_dispatch:
  "registry_category addCursorPosCallback removeCursorPosCallback
     (\<lambda>i (x, y). handleCursorPosEvent i x y) (\<lambda>args. args)
   \<and> registry_category addMouseButtonCallback removeMouseButtonCallback
     (\<lambda>i (button, action, modifiers). handleMouseButtonEvent i button action modifiers) (\<lambda>args. args)
   \<and> registry_category addKeyCallback removeKeyCallback
     (\<lambda>i (key, scancode, action, mods). handleKeyEvent i key scancode action mods) (\<lambda>args. args)
   \<and> registry_category addUnicodeCallback removeUnicodeCallback
     (\<lambda>i codepoint. handleUnicodeEvent i codepoint) (\<lambda>args. args)
   \<and> registry_category addDropCallback removeDropCallback
     (\<lambda>i (cnt, filenames). handleDropEvent i cnt filenames) (\<lambda>args. args)
   \<and> registry_category addScrollCallback removeScrollCallback
     (\<lambda>i (x, y). handleScrollEvent i x y) (\<lambda>args. args)
   \<and> registry_category addFramebufferSizeCallback removeFramebufferSizeCallback
     (\<lambda>i (x, y, pixelRatio). handleFramebufferSizeEvent float_of_double i x y pixelRatio)
     (\<lambda>(x, y, pixelRatio). (int_of_double x, int_of_double y, float_of_double pixelRatio))"
proof (intro conjI)
  show "registry_category addCursorPosCallback removeCursorPosCallback
     (\<lambda>i (x, y). handleCursorPosEvent i x y) (\<lambda>args. args)"
    by (rule registry_categoryI)
      (simp_all add: addCursorPosCallback_def handleCursorPosEvent_fold split: prod.splits)
  show "registry_category addMouseButtonCallback removeMouseButtonCallback
     (\<lambda>i (button, action, modifiers). handleMouseButtonEvent i button action modifiers) (\<lambda>args. args)"
    by (rule registry_categoryI)
      (simp_all add: addMouseButtonCallback_def handleMouseButtonEvent_fold split: prod.splits)
  show "registry_category addKeyCallback removeKeyCallback
     (\<lambda>i (key, scancode, action, mods). handleKeyEvent i key scancode action mods) (\<lambda>args. args)"
    by (rule registry_categoryI)
      (simp_all add: addKeyCallback_def handleKeyEvent_fold split: prod.splits)
  show "registry_category addUnicodeCallback removeUnicodeCallback
     (\<lambda>i codepoint. handleUnicodeEvent i codepoint) (\<lambda>args. args)"
    by (rule registry_categoryI)
      (simp_all add: addUnicodeCallback_def handleUnicodeEvent_fold)
  show "registry_category addDropCallback removeDropCallback
     (\<lambda>i (cnt, filenames). handleDropEvent i cnt filenames) (\<lambda>args. args)"
    by (rule registry_categoryI)
      (simp_all add: addDropCallback_def handleDropEvent_fold split: prod.splits)
  show "registry_category addScrollCallback removeScrollCallback
     (\<lambda>i (x, y). handleScrollEvent i x y) (\<lambda>args. args)"
    by (rule registry_categoryI)
      (simp_all add: addScrollCallback_def handleScrollEvent_fold split: prod.splits)
  show "registry_category addFramebufferSizeCallback removeFramebufferSizeCallback
     (\<lambda>i (x, y, pixelRatio). handleFramebufferSizeEvent float_of_double i x y pixelRatio)
     (\<lambda>(x, y, pixelRatio). (int_of_double x, int_of_double y, float_of_double pixelRatio))"
    by (rule registry_categoryI)
      (simp_all add: addFramebufferSizeCallback_def handleFramebufferSizeEvent_fold split: prod.splits)
qed

lemma registry_category_example:
  assumes "registry_category add remove handle conv"
  shows "handle 0 args (run_registry_ops add remove example_ops []) [] =
           [(conv args, ''second''), (conv args, ''third'')]
       \<and> remove 5 (example_callbacks @ (5, cb) # example_callbacks) = example_callbacks @ example_callbacks
       \<and> remove 7 example_callbacks = example_callbacks"
proof -
  have a: "\<forall>e \<in> set example_callbacks. fst e \<noteq> (5::int)"
    and b: "\<forall>e \<in> set example_callbacks. fst e \<noteq> (7::int)"
    by (simp_all add: example_callbacks_def)
  have "handle 0 args (run_registry_ops add remove example_ops []) [] =
      fold (\<lambda>cb. cb (conv args)) (registered_spec example_ops (\<lambda>j. []) 0) []"
    using assms unfolding registry_category_def by blast
  then have "handle 0 args (run_registry_ops add remove example_ops []) [] =
           [(conv args, ''second''), (conv args, ''third'')]"
    by (simp add: example_ops_def)
  moreover have "remove 5 (example_callbacks @ (5, cb) # example_callbacks) = example_callbacks @ example_callbacks"
    using assms a unfolding registry_category_def by blast
  moreover have "remove 7 example_callbacks = example_callbacks"
    using assms b unfolding registry_category_def by blast
  ultimately show ?thesis by simp
qed

theorem registry_dispatch_witness:
  "(handleCursorPosEvent 0 3 4
        (run_registry_ops addCursorPosCallback removeCursorPosCallback example_ops []) [] =
      [((3, 4), ''second''), ((3, 4), ''third'')]
    \<and> removeCursorPosCallback 5 (example_callbacks @ (5, \<lambda>a w. w) # example_callbacks) =
        example_callbacks @ example_callbacks
    \<and> removeCursorPosCallback 7 example_callbacks = example_callbacks)
   \<and> (handleMouseButtonEvent 0 0 1 0
        (run_registry_ops addMouseButtonCallback removeMouseButtonCallback example_ops []) [] =
      [((0, 1, 0), ''second''), ((0, 1, 0), ''third'')]
    \<and> removeMouseButtonCallback 5 (example_callbacks @ (5, \<lambda>a w. w) # example_callbacks) =
        example_callbacks @ example_callbacks
    \<and> removeMouseButtonCallback 7 example_callbacks = example_callbacks)
   \<and> (handleKeyEvent 0 65 38 1 0
        (run_registry_ops addKeyCallback removeKeyCallback example_ops []) [] =
      [((65, 38, 1, 0), ''second''), ((65, 38, 1, 0), ''third'')]
    \<and> removeKeyCallback 5 (example_callbacks @ (5, \<lambda>a w. w) # example_callbacks) =
        example_callbacks @ example_callbacks
    \<and> removeKeyCallback 7 example_callbacks = example_callbacks)
   \<and> (handleUnicodeEvent 0 97
        (run_registry_ops addUnicodeCallback removeUnicodeCallback example_ops []) [] =
      [(97, ''second''), (97, ''third'')]
    \<and> removeUnicodeCallback 5 (example_callbacks @ (5, \<lambda>a w. w) # example_callbacks) =
        example_callbacks @ example_callbacks
    \<and> removeUnicodeCallback 7 example_callbacks = example_callbacks)
   \<and> (handleDropEvent 0 1 [''a.png'']
        (run_registry_ops addDropCallback removeDropCallback example_ops []) [] =
      [((1, [''a.png'']), ''second''), ((1, [''a.png'']), ''third'')]
    \<and> removeDropCallback 5 (example_callbacks @ (5, \<lambda>a w. w) # example_callbacks) =
        example_callbacks @ example_callbacks
    \<and> removeDropCallback 7 example_callbacks = example_callbacks)
   \<and> (handleScrollEvent 0 0 1
        (run_registry_ops addScrollCallback removeScrollCallback example_ops []) [] =
      [((0, 1), ''second''), ((0, 1), ''third'')]
    \<and> removeScrollCallback 5 (example_callbacks @ (5, \<lambda>a w. w) # example_callbacks) =
        example_callbacks @ example_callbacks
    \<and> removeScrollCallback 7 example_callbacks = example_callbacks)
   \<and> (handleFramebufferSizeEvent (\<lambda>r. r) 0 640 480 2
        (run_registry_ops addFramebufferSizeCallback removeFramebufferSizeCallback example_ops []) [] =
      [((640, 480, 2), ''second''), ((640, 480, 2), ''third'')]
    \<and> removeFramebufferSizeCallback 5 (example_callbacks @ (5, \<lambda>a w. w) # example_callbacks) =
        example_callbacks @ example_callbacks
    \<and> removeFramebufferSizeCallback 7 example_callbacks = example_callbacks)"
  using
    registry_category_example[OF registry_dispatch[of "\<lambda>r. r", THEN conjunct1],
      where args = "(3, 4)" and cb = "\<lambda>a w. w"]
    registry_category_example[OF registry_dispatch[of "\<lambda>r. r", THEN conjunct2, THEN conjunct1],
      where args = "(0, 1, 0)" and cb = "\<lambda>a w. w"]
    registry_category_example[OF registry_dispatch[of "\<lambda>r. r", THEN conjunct2, THEN conjunct2,
        THEN conjunct1],
      where args = "(65, 38, 1, 0)" and cb = "\<lambda>a w. w"]
    registry_category_example[OF registry_dispatch[of "\<lambda>r. r", THEN conjunct2, THEN conjunct2,
        THEN conjunct2, THEN conjunct1],
      where args = "97" and cb = "\<lambda>a w. w"]
    registry_category_example[OF registry_dispatch[of "\<lambda>r. r", THEN conjunct2, THEN conjunct2,
        THEN conjunct2, THEN conjunct2, THEN conjunct1],
      where args = "(1, [''a.png''])" and cb = "\<lambda>a w. w"]
    registry_category_example[OF registry_dispatch[of "\<lambda>r. r", THEN conjunct2, THEN conjunct2,
        THEN conjunct2, THEN conjunct2, THEN conjunct2, THEN conjunct1],
      where args = "(0, 1)" and cb = "\<lambda>a w. w"]
    registry_category_example[OF registry_dispatch[of "\<lambda>r. r", THEN conjunct2, THEN conjunct2,
        THEN conjunct2, THEN conjunct2, THEN conjunct2, THEN conjunct2],
      where args = "(640, 480, 2)" and cb = "\<lambda>a w. w"]
  by (simp add: int_of_double_def)

text \<open>
  The arguments do not always arrive as given: a framebuffer size event of 640.7 by 480.2
  with ratio 1 (a \<^verbatim>\<open>float\<close>, which the rounding leaves as it is) reaches its callback as
  640 by 480.
\<close>

theorem framebuffer_args_counterexample:
  "handleFramebufferSizeEvent (\<lambda>r. r) 0 (6407 / 10) (4802 / 10) 1 [(0, \<lambda>a w. w @ [a])] [] =
     [(640, 480, 1)]
   \<and> real_of_int 640 \<noteq> 6407 / 10 \<and> real_of_int 480 \<noteq> 4802 / 10"
  by (simp add: int_of_double_def)

subsection \<open>Keyboard and character events\<close>

lemma keyboardEvent_loop_walk:
  "keyboardEvent_loop e ev ws s =
     (walk_outcome e ev (filter (\<lambda>w. focused (widgets s w)) ws),
      s\<lparr>delivered := delivered s @ walk_events e ev (filter (\<lambda>w. focused (widgets s w)) ws)\<rparr>)"
proof (induction ws arbitrary: s)
  case Nil
  show ?case by (simp add: walk_outcome_def walk_events_def)
next
  case (Cons w ws)
  show ?case
  proof (cases "focused (widgets s w)")
    case False
    then show ?thesis using Cons[of s] by simp
  next
    case True
    show ?thesis
    proof (cases "respond e (ev w)")
      case (Inl x)
      then show ?thesis using True
        by (simp add: deliver_def walk_outcome_def walk_events_def declines_def)
    next
      case (Inr b)
      show ?thesis
      proof (cases b)
        case True
        then show ?thesis using Inr \<open>focused (widgets s w)\<close>
          by (simp add: deliver_def walk_outcome_def walk_events_def declines_def)
      next
        case False
        then show ?thesis using Inr \<open>focused (widgets s w)\<close>
            Cons[of "s\<lparr>delivered := delivered s @ [ev w]\<rparr>"]
          by (simp add: deliver_def walk_outcome_def walk_events_def declines_def)
      qed
    qed
  qed
qed

lemma tl_rev: "tl (rev xs) = rev (butlast xs)"
  by (induction xs rule: rev_induct) simp_all

text \<open>
  C3 (as the code has it). A keyboard event, and likewise a character event, goes to the
  entries of the focus path other than the last stored one (the screen), in the reverse of
  the stored order, that is from the outermost ancestor toward the focused leaf; entries
  whose \<^verbatim>\<open>focused()\<close> flag is not set are passed over; the walk stops at the first
  handler that reports the event handled (or raises). With an empty path, or a path of the
  screen alone, nothing is delivered and the event is reported unhandled.
\<close>

theorem keyboard_dispatch_order:
  "keyboardEvent e key scancode action modifiers s =
     (walk_outcome e (\<lambda>w. KeyboardEvent w key scancode action modifiers) (focused_rootward s),
      s\<lparr>delivered := delivered s @
           walk_events e (\<lambda>w. KeyboardEvent w key scancode action modifiers) (focused_rootward s)\<rparr>)
   \<and> keyboardCharacterEvent e codepoint s =
     (walk_outcome e (\<lambda>w. KeyboardCharacterEvent w codepoint) (focused_rootward s),
      s\<lparr>delivered := delivered s @
           walk_events e (\<lambda>w. KeyboardCharacterEvent w codepoint) (focused_rootward s)\<rparr>)"
proof (cases "mFocusPath s = []")
  case True
  then show ?thesis
    by (simp add: keyboardEvent_def keyboardCharacterEvent_def focused_rootward_def
        walk_outcome_def walk_events_def)
next
  case False
  then show ?thesis
    by (simp add: keyboardEvent_def keyboardCharacterEvent_def focused_rootward_def
        keyboardEvent_loop_walk tl_rev)
qed

text \<open>
  The claim as the specification words it, from the leaf rootward, fails: with the path
  button 2, window 1, screen 0, where window and button both handle the key, the code
  delivers the key to the window only, the leaf-first walk to the button only.
\<close>

theorem keyboard_leaf_first_counterexample:
  "keyboardEvent example_env 65 0 1 0 example_state
     \<noteq> keyboardEvent_spec example_env 65 0 1 0 example_state
   \<and> delivered (snd (keyboardEvent example_env 65 0 1 0 example_state)) = [KeyboardEvent 1 65 0 1 0]
   \<and> delivered (snd (keyboardEvent_spec example_env 65 0 1 0 example_state)) = [KeyboardEvent 2 65 0 1 0]"
  by (simp add: keyboardEvent_def keyboardEvent_spec_def example_state_def example_env_def
      example_respond_def example_widgets_def plain_widget_def deliver_def)

subsection \<open>Resize\<close>

text \<open>
  C4 (as the code has it). A resize event with width 0 and height 0 is not forwarded to
  the widget tree and leaves the time of the last interaction as it was, but it does
  overwrite the recorded size with (0, 0) and records the pixel ratio: the assignment
  comes before the test. The callback returns \<^verbatim>\<open>false\<close>, unless the platform scales
  by a pixel ratio that converts to 0, which divides by zero.
\<close>

theorem resize_zero:
  "fst (resizeCallbackEvent e 0 0 pixelRatio s) =
     (if scaled e \<and> int_of_double pixelRatio = 0 then Fault else Returned False)
   \<and> mLastInteraction (snd (resizeCallbackEvent e 0 0 pixelRatio s)) = mLastInteraction s
   \<and> delivered (snd (resizeCallbackEvent e 0 0 pixelRatio s)) = delivered s
   \<and> mSize (snd (resizeCallbackEvent e 0 0 pixelRatio s)) = (0, 0)
   \<and> mPixelRatio (snd (resizeCallbackEvent e 0 0 pixelRatio s)) = pixelRatio"
  by (simp add: resizeCallbackEvent_def vdiv_def cdiv_def Let_def)

text \<open>The recorded size does not survive: it was (500, 700) and is (0, 0) afterwards.\<close>

theorem resize_zero_counterexample:
  "mSize (snd (resizeCallbackEvent example_env 0 0 1 example_state)) \<noteq> mSize example_state"
  by (simp add: resizeCallbackEvent_def vdiv_def cdiv_def Let_def example_env_def example_state_def int_of_double_def)

subsection \<open>Exceptions raised by handlers\<close>

text \<open>
  C9. Six of the seven callbacks wrap the delivery in \<^verbatim>\<open>try\<close> and end the process when
  a \<^verbatim>\<open>std::exception\<close> arrives. \<^verbatim>\<open>dropCallbackEvent\<close> has no \<^verbatim>\<open>try\<close>: an exception
  raised by the drop handler leaves the callback and reaches the caller.
\<close>

theorem drop_exception_propagates:
  "fst (dropCallbackEvent throwing_env [''a.png''] example_state) = Thrown (StdException ''cannot open'')
   \<and> fst (keyCallbackEvent throwing_env 65 0 1 0 example_state) =
       Aborted ''Caught exception in event handler: cannot open''
   \<and> fst (charCallbackEvent throwing_env 97 example_state) =
       Aborted ''Caught exception in event handler: cannot open''
   \<and> fst (scrollCallbackEvent throwing_env 0 1 (example_state\<lparr>mMousePos := (50, 50)\<rparr>)) =
       Aborted ''Caught exception in event handler: cannot open''
   \<and> fst (resizeCallbackEvent throwing_env 640 480 1 example_state) =
       Aborted ''Caught exception in event handler: cannot open''
   \<and> fst (cursorPosCallbackEvent throwing_env 10 10 example_state) =
       Aborted ''Caught exception in event handler: cannot open''
   \<and> map_option fst (mouseButtonCallbackEvent throwing_env 0 1 0 (example_state\<lparr>mMousePos := (50, 50), mDragActive := False\<rparr>)) =
       Some (Aborted ''Caught exception in event handler: cannot open'')"
  apply (intro conjI)
  subgoal by (simp add: dropCallbackEvent_def answer_def deliver_def throwing_env_def example_env_def)
  subgoal by (simp add: keyCallbackEvent_def keyboardEvent_def getTime_def catch_abort_def deliver_def throwing_env_def example_env_def example_state_def example_widgets_def plain_widget_def)
  subgoal by (simp add: charCallbackEvent_def keyboardCharacterEvent_def getTime_def catch_abort_def deliver_def throwing_env_def example_env_def example_state_def example_widgets_def plain_widget_def)
  subgoal by (simp add: scrollCallbackEvent_def modal_gate_def getTime_def catch_abort_def answer_def deliver_def throwing_env_def example_env_def example_state_def example_widgets_def plain_widget_def Let_def)
  subgoal by (simp add: resizeCallbackEvent_def vdiv_def cdiv_def int_of_double_def getTime_def catch_abort_def answer_def deliver_def throwing_env_def example_env_def example_state_def Let_def)
  subgoal by (simp add: cursorPosCallbackEvent_def cursorPos_convert_def cursorPos_body_def vdiv_def cdiv_def int_of_double_def getTime_def catch_abort_def deliver_def throwing_env_def example_env_def example_state_def example_widgets_def plain_widget_def Let_def)
  subgoal by (simp add: mouseButtonCallbackEvent_def mouseButton_body_def mouseButton_release_def mouseButton_drag_def updateFocus_def collect_loop.simps modal_gate_def getTime_def catch_abort_def answer_def deliver_def throwing_env_def example_env_def example_state_def example_widgets_def plain_widget_def Let_def focusEvent_def)
  done

subsection \<open>Disposal of a window\<close>

text \<open>
  C8. \<^verbatim>\<open>disposeWindow\<close> clears the focus path and detaches the window, but of the drag
  state it clears the drag widget only: \<^verbatim>\<open>mDragActive\<close> stays set, and the next cursor
  movement dereferences the null drag widget.
\<close>

theorem dispose_keeps_drag_active:
  "mDragWidget example_state = Some 1 \<and> mDragActive example_state
   \<and> mDragWidget (disposeWindow 1 example_state) = None
   \<and> mDragActive (disposeWindow 1 example_state)
   \<and> mFocusPath (disposeWindow 1 example_state) = []
   \<and> mChildren (disposeWindow 1 example_state) = [3, 4]
   \<and> fst (cursorPosCallbackEvent example_env 10 10 (disposeWindow 1 example_state)) = Fault"
  by (simp add: disposeWindow_def removeChild_def example_state_def Let_def cursorPosCallbackEvent_def
     cursorPos_convert_def example_env_def vdiv_def cdiv_def int_of_double_def getTime_def cursorPos_body_def catch_abort_def)

subsection \<open>The modal gate\<close>

text \<open>
  C5. When the entry before the last of the focus path is a modal window that does not
  contain the recorded mouse position, a mouse button event is dropped: the callback
  returns \<^verbatim>\<open>false\<close> (or the unset time callback raises), no event reaches a handler,
  and the drag flag, the drag widget, the focus path, the button mask, the child sequence
  and the widgets are as before.
\<close>

theorem modal_gate_drops_button:
  assumes "length (mFocusPath s) > 1"
    and "is_Window (widgets s (mFocusPath s ! (length (mFocusPath s) - 2)))"
    and "modal (widgets s (mFocusPath s ! (length (mFocusPath s) - 2)))"
    and "\<not> contains e (mFocusPath s ! (length (mFocusPath s) - 2)) (mMousePos s)"
  shows "\<exists>out s'. mouseButtonCallbackEvent e button action modifiers s = Some (out, s')
     \<and> (out = Returned False \<or> out = Thrown (StdException ''getTimeCallback not initialized''))
     \<and> delivered s' = delivered s
     \<and> mDragActive s' = mDragActive s \<and> mDragWidget s' = mDragWidget s
     \<and> mFocusPath s' = mFocusPath s
     \<and> mMouseState s' = mMouseState s \<and> mChildren s' = mChildren s \<and> widgets s' = widgets s"
proof (cases "getTimeCallback e")
  case None
  then show ?thesis
    by (simp add: mouseButtonCallbackEvent_def getTime_def Let_def)
next
  case (Some t)
  have "modal_gate e (s\<lparr>mModifiers := modifiers, mLastInteraction := t\<rparr>)"
    using assms by (simp add: modal_gate_def Let_def)
  then show ?thesis using Some
    by (simp add: mouseButtonCallbackEvent_def getTime_def Let_def mouseButton_body_def catch_abort_def)
qed

theorem modal_gate_drops_button_witness:
  "\<exists>out s'. mouseButtonCallbackEvent example_env 0 1 0 example_state = Some (out, s')
     \<and> (out = Returned False \<or> out = Thrown (StdException ''getTimeCallback not initialized''))
     \<and> delivered s' = delivered example_state
     \<and> mDragActive s' = mDragActive example_state \<and> mDragWidget s' = mDragWidget example_state
     \<and> mFocusPath s' = mFocusPath example_state
     \<and> mMouseState s' = mMouseState example_state \<and> mChildren s' = mChildren example_state \<and> widgets s' = widgets example_state"
  by (rule modal_gate_drops_button)
    (simp_all add: example_state_def example_env_def example_widgets_def plain_widget_def is_Window_def)

subsection \<open>Cursor movement during a drag\<close>




subsection \<open>Sequences without repetitions\<close>

lemma filter_eq_distinct:
  "distinct xs \<Longrightarrow> filter (\<lambda>x. x = a) xs = (if a \<in> set xs then [a] else [])"
  by (induction xs) auto

lemma before_in_set: "before xs a b \<Longrightarrow> a \<in> set xs \<and> b \<in> set xs"
proof -
  assume "before xs a b"
  then have "set (filter (\<lambda>x. x = a \<or> x = b) xs) = {a, b}" by (simp add: before_def)
  then show ?thesis by auto
qed

lemma before_irrefl: "distinct xs \<Longrightarrow> \<not> before xs a a"
  by (simp add: before_def filter_eq_distinct)

lemma before_asym: "distinct xs \<Longrightarrow> before xs a b \<Longrightarrow> \<not> before xs b a"
proof
  assume d: "distinct xs" and 1: "before xs a b" and 2: "before xs b a"
  have "[a, b] = filter (\<lambda>x. x = a \<or> x = b) xs"
    using 1 unfolding before_def by (rule sym)
  also have "\<dots> = filter (\<lambda>x. x = b \<or> x = a) xs"
    by (rule filter_cong) auto
  also have "\<dots> = [b, a]"
    using 2 unfolding before_def .
  finally have "[a, b] = [b, a]" .
  then have "a = b" by (metis list.inject)
  with 1 d show False using before_irrefl by blast
qed

lemma before_split:
  assumes "distinct (u @ a # v @ b # w)"
  shows "before (u @ a # v @ b # w) a b"
proof -
  have "filter (\<lambda>x. x = a \<or> x = b) u = []" "filter (\<lambda>x. x = a \<or> x = b) v = []"
    "filter (\<lambda>x. x = a \<or> x = b) w = []"
    using assms by (auto simp add: filter_empty_conv)
  then show ?thesis by (simp add: before_def)
qed

lemma before_total:
  assumes "distinct xs" "a \<in> set xs" "b \<in> set xs" "a \<noteq> b"
  shows "before xs a b \<or> before xs b a"
proof -
  from assms(2) obtain u v where xs: "xs = u @ a # v" by (auto dest: split_list)
  with assms have "b \<in> set u \<or> b \<in> set v" by auto
  then show ?thesis
  proof
    assume "b \<in> set u"
    then obtain u1 u2 where "u = u1 @ b # u2" by (auto dest: split_list)
    with xs have "xs = u1 @ b # u2 @ a # v" by simp
    with assms(1) show ?thesis using before_split[of u1 b u2 a v] by simp
  next
    assume "b \<in> set v"
    then obtain v1 v2 where "v = v1 @ b # v2" by (auto dest: split_list)
    with xs have "xs = u @ a # v1 @ b # v2" by simp
    with assms(1) show ?thesis using before_split[of u a v1 b v2] by simp
  qed
qed

lemma before_splitE:
  assumes "distinct xs" "before xs a b"
  shows "\<exists>u v w. xs = u @ a # v @ b # w"
proof -
  from assms have ab: "a \<in> set xs" "b \<in> set xs" "a \<noteq> b"
    using before_in_set before_irrefl by blast+
  from ab(1) obtain u v where xs: "xs = u @ a # v" by (auto dest: split_list)
  with ab assms(1) have "b \<in> set u \<or> b \<in> set v" by auto
  then show ?thesis
  proof
    assume "b \<in> set u"
    then obtain u1 u2 where "u = u1 @ b # u2" by (auto dest: split_list)
    with xs have "xs = u1 @ b # u2 @ a # v" by simp
    with assms(1) have "before xs b a" using before_split[of u1 b u2 a v] by simp
    with assms show ?thesis using before_asym by blast
  next
    assume "b \<in> set v"
    then obtain v1 v2 where "v = v1 @ b # v2" by (auto dest: split_list)
    with xs show ?thesis by auto
  qed
qed

lemma before_trans:
  assumes "distinct xs" "before xs a b" "before xs b c"
  shows "before xs a c"
proof -
  from before_splitE[OF assms(1,2)] obtain u v w where xs: "xs = u @ a # v @ b # w" by blast
  from assms(3) have "c \<in> set xs" "b \<noteq> c" using before_in_set before_irrefl assms(1) by blast+
  have "c \<notin> set u \<and> c \<noteq> a \<and> c \<notin> set v"
  proof (rule ccontr)
    assume "\<not> ?thesis"
    then have "c \<in> set (u @ a # v)" by auto
    then obtain p q where "u @ a # v = p @ c # q" by (meson split_list)
    then have "xs = p @ c # q @ b # w" using xs by (metis append.assoc append_Cons)
    with assms(1) have "before xs c b" using before_split[of p c q b w] by simp
    with assms show False using before_asym by blast
  qed
  with \<open>c \<in> set xs\<close> \<open>b \<noteq> c\<close> xs have "c \<in> set w" by auto
  then obtain w1 w2 where "w = w1 @ c # w2" by (auto dest: split_list)
  with xs have "xs = u @ a # (v @ b # w1) @ c # w2" by simp
  with assms(1) show ?thesis using before_split[of u a "v @ b # w1" c w2] by simp
qed

lemma before_move_other:
  assumes "a \<noteq> c" "b \<noteq> c"
  shows "before (removeAll c cs @ [c]) a b = before cs a b"
proof -
  have "filter (\<lambda>x. x = a \<or> x = b) (removeAll c cs) = filter (\<lambda>x. x = a \<or> x = b) cs"
    using assms by (induction cs) auto
  with assms show ?thesis by (simp add: before_def)
qed

lemma before_move_end:
  assumes "distinct cs" "a \<in> set cs" "a \<noteq> c"
  shows "before (removeAll c cs @ [c]) a c"
proof -
  have "filter (\<lambda>x. x = a \<or> x = c) (removeAll c cs) = filter (\<lambda>x. x = a) cs"
    using assms(3) by (induction cs) auto
  with assms show ?thesis by (simp add: before_def filter_eq_distinct)
qed

lemma before_nth:
  assumes "distinct xs" "before xs a b" "i < length xs" "j < length xs" "xs ! i = a" "xs ! j = b"
  shows "i < j"
proof -
  from before_splitE[OF assms(1,2)] obtain u v w where xs: "xs = u @ a # v @ b # w" by blast
  have "xs ! length u = a" using xs by simp
  moreover have "length u < length xs" using xs by simp
  ultimately have i: "i = length u" using assms(1,3,5) nth_eq_iff_index_eq by blast
  have "xs ! (length u + 1 + length v) = b" using xs by (simp add: nth_append)
  moreover have "length u + 1 + length v < length xs" using xs by simp
  ultimately have "j = length u + 1 + length v" using assms(1,4,6) nth_eq_iff_index_eq by blast
  with i show ?thesis by simp
qed

lemma nth_before:
  assumes "distinct xs" "i < j" "j < length xs"
  shows "before xs (xs ! i) (xs ! j)"
proof -
  have ne: "xs ! i \<noteq> xs ! j" using assms by (simp add: nth_eq_iff_index_eq)
  have "before xs (xs ! i) (xs ! j) \<or> before xs (xs ! j) (xs ! i)"
    using assms ne by (intro before_total) simp_all
  moreover have "\<not> before xs (xs ! j) (xs ! i)"
  proof
    assume "before xs (xs ! j) (xs ! i)"
    then have "j < i" using assms before_nth[of xs "xs ! j" "xs ! i" j i] by simp
    with assms show False by simp
  qed
  ultimately show ?thesis by blast
qed

lemma index_of_nth: "x \<in> set xs \<Longrightarrow> index_of x xs < length xs \<and> xs ! index_of x xs = x"
  by (induction xs) (auto simp: index_of_def)

lemma before_index_of:
  assumes "distinct xs"
  shows "before xs a b \<longleftrightarrow> a \<in> set xs \<and> b \<in> set xs \<and> index_of a xs < index_of b xs"
proof
  assume b: "before xs a b"
  then have "a \<in> set xs" "b \<in> set xs" using before_in_set by blast+
  with b assms show "a \<in> set xs \<and> b \<in> set xs \<and> index_of a xs < index_of b xs"
    using before_nth[of xs a b "index_of a xs" "index_of b xs"] index_of_nth by auto
next
  assume h: "a \<in> set xs \<and> b \<in> set xs \<and> index_of a xs < index_of b xs"
  then show "before xs a b"
    using nth_before[of xs "index_of a xs" "index_of b xs"] assms index_of_nth by auto
qed

lemma popups_above_owner_first:
  assumes "distinct cs"
  shows "popups_above ws cs = owner_first ws cs"
proof
  assume pa: "popups_above ws cs"
  show "owner_first ws cs"
    unfolding owner_first_def
  proof (intro allI impI)
    fix p c assume h: "p \<in> set cs \<and> c \<in> set cs \<and> isPopupOf ws p c"
    then have "index_of p cs < index_of c cs"
      using pa index_of_nth[of p cs] index_of_nth[of c cs] unfolding popups_above_def by metis
    with h assms show "before cs p c" by (simp add: before_index_of)
  qed
next
  assume of: "owner_first ws cs"
  show "popups_above ws cs"
    unfolding popups_above_def
  proof (intro allI impI)
    fix i j assume h: "i < length cs \<and> j < length cs \<and> isPopupOf ws (cs ! i) (cs ! j)"
    then have "before cs (cs ! i) (cs ! j)" using of unfolding owner_first_def by simp
    with h assms show "i < j" using before_nth by blast
  qed
qed

subsection \<open>The loops of \<^verbatim>\<open>moveWindowToFront\<close>\<close>

lemma baseIndex_loop_distinct:
  "distinct cs \<Longrightarrow> baseIndex_loop w cs i b =
     (if w \<in> set cs then i + length (takeWhile (\<lambda>x. x \<noteq> w) cs) else b)"
  by (induction cs arbitrary: i b) auto

lemma findPopup_loop_find:
  "findPopup_loop ws w base cs i = find (isPopupOf ws w) (take (base - i) cs)"
proof (induction cs arbitrary: i)
  case Nil
  show ?case by simp
next
  case (Cons c cs)
  show ?case
  proof (cases "i < base")
    case True
    then obtain k where k: "base - i = Suc k" by (cases "base - i") auto
    then have "base - Suc i = k" by simp
    with Cons[of "Suc i"] True k show ?thesis by simp
  next
    case False
    with Cons[of "Suc i"] show ?thesis by simp
  qed
qed

lemma findPopup_takeWhile:
  assumes "distinct cs" "w \<in> set cs"
  shows "findPopup_loop ws w (baseIndex_loop w cs 0 0) cs 0 =
     find (isPopupOf ws w) (takeWhile (\<lambda>x. x \<noteq> w) cs)"
  using assms by (simp add: baseIndex_loop_distinct findPopup_loop_find takeWhile_eq_take[symmetric])

lemma takeWhile_upto:
  "w \<notin> set u \<Longrightarrow> takeWhile (\<lambda>x. x \<noteq> w) (u @ w # v) = u"
  by (induction u) auto

lemma set_takeWhile_before:
  assumes "distinct cs" "w \<in> set cs"
  shows "set (takeWhile (\<lambda>x. x \<noteq> w) cs) = {a. before cs a w}"
proof -
  from assms(2) obtain u v where cs: "cs = u @ w # v" by (auto dest: split_list)
  with assms(1) have tw: "takeWhile (\<lambda>x. x \<noteq> w) cs = u" by (simp add: takeWhile_upto)
  have "a \<in> set u \<longleftrightarrow> before cs a w" for a
  proof
    assume "a \<in> set u"
    then obtain p q where "u = p @ a # q" by (auto dest: split_list)
    with cs have "cs = p @ a # q @ w # v" by simp
    with assms(1) show "before cs a w" using before_split[of p a q w v] by simp
  next
    assume b: "before cs a w"
    from before_splitE[OF assms(1) b] obtain p q r where "cs = p @ a # q @ w # r" by blast
    then have "cs = (p @ a # q) @ w # r" by simp
    moreover from this assms(1) have "w \<notin> set (p @ a # q)" by auto
    ultimately have "takeWhile (\<lambda>x. x \<noteq> w) cs = p @ a # q"
      using takeWhile_upto[of w "p @ a # q" r] by simp
    with tw have "u = p @ a # q" by simp
    then show "a \<in> set u" by simp
  qed
  with tw show ?thesis by auto
qed

lemma reorder_refl: "distinct cs \<Longrightarrow> reorder {} cs cs"
  by (simp add: reorder_def)

lemma reorder_trans:
  assumes "reorder M1 A B" "reorder M2 B C"
  shows "reorder (M1 \<union> M2) A C"
  unfolding reorder_def
proof (intro conjI allI impI)
  show "distinct C" using assms by (simp add: reorder_def)
  show "set C = set A" using assms by (simp add: reorder_def)
next
  fix a b assume h: "a \<in> set A \<and> b \<in> set A \<and> a \<notin> M1 \<union> M2 \<and> b \<in> M1 \<union> M2"
  have sets: "set B = set A" using assms by (simp add: reorder_def)
  show "before C a b"
  proof (cases "b \<in> M2")
    case True
    with h sets assms(2) show ?thesis unfolding reorder_def by blast
  next
    case False
    with h have "b \<in> M1" by simp
    with h assms(1) have "before B a b" unfolding reorder_def by blast
    moreover have "before C a b = before B a b"
      using False h assms(2) unfolding reorder_def by blast
    ultimately show ?thesis by simp
  qed
next
  fix a b assume h: "a \<notin> M1 \<union> M2 \<and> b \<notin> M1 \<union> M2"
  then have "before C a b = before B a b" using assms(2) unfolding reorder_def by blast
  also have "\<dots> = before A a b" using h assms(1) unfolding reorder_def by blast
  finally show "before C a b = before A a b" .
qed

lemma reorder_move:
  assumes "distinct cs"
  shows "reorder {c} cs (removeAll c cs @ [c]) \<or> c \<notin> set cs"
  unfolding reorder_def using assms
  by (auto simp add: distinct_removeAll before_move_other before_move_end)

lemma after_owner_trans:
  assumes "after_owner ws M1 B" "reorder M2 B C" "after_owner ws M2' C" "M2 \<subseteq> M2'"
  shows "after_owner ws (M1 \<union> M2') C"
  unfolding after_owner_def
proof (intro allI impI)
  fix p c assume h: "p \<in> M1 \<union> M2' \<and> p \<in> set C \<and> c \<in> set C \<and> isPopupOf ws p c"
  have sets: "set C = set B" using assms(2) by (simp add: reorder_def)
  show "before C p c"
  proof (cases "p \<in> M2'")
    case True
    with h assms(3) show ?thesis unfolding after_owner_def by blast
  next
    case F: False
    then have False: "p \<notin> M2" using assms(4) by auto
    from F h have "p \<in> M1" by simp
    with h sets assms(1) have b: "before B p c" unfolding after_owner_def by blast
    show ?thesis
    proof (cases "c \<in> M2")
      case True
      with False h sets assms(2) show ?thesis unfolding reorder_def by blast
    next
      case c: False
      with False assms(2) have "before C p c = before B p c" unfolding reorder_def by blast
      with b show ?thesis by simp
    qed
  qed
qed

lemma finite_owns: "finite S \<Longrightarrow> finite (owns ws S)"
  by (rule finite_subset[of _ "S \<times> S"]) (auto simp: owns_def)

lemma topoLoop_returns:
  assumes fin: "finite S" and ac: "acyclic (owns ws S)"
  shows "distinct cs \<Longrightarrow> set cs = S \<Longrightarrow> w \<in> S \<Longrightarrow>
     \<exists>R M. topoLoop ws w cs = Some R \<and> M \<subseteq> (owns ws S)\<^sup>+ `` {w} \<and> reorder M cs R \<and>
       after_owner ws (insert w M) R"
proof -
  have wf: "wf ((owns ws S)\<inverse>)"
    using fin ac by (simp add: finite_owns finite_acyclic_wf_converse)
  show "distinct cs \<Longrightarrow> set cs = S \<Longrightarrow> w \<in> S \<Longrightarrow>
     \<exists>R M. topoLoop ws w cs = Some R \<and> M \<subseteq> (owns ws S)\<^sup>+ `` {w} \<and> reorder M cs R \<and>
       after_owner ws (insert w M) R"
    using wf
  proof (induction w arbitrary: cs rule: wf_induct_rule)
    case (less w)
    note outer = less.IH
    have noself: "\<not> isPopupOf ws w w"
    proof
      assume "isPopupOf ws w w"
      with less.prems have "(w, w) \<in> owns ws S" by (simp add: owns_def)
      with ac show False by (auto simp: acyclic_def)
    qed
    define n where "n = card {x \<in> S. isPopupOf ws w x \<and> before cs x w}"
    from n_def less.prems show ?case
    proof (induction n arbitrary: cs rule: less_induct)
      case (less n cs)
      note d = \<open>distinct cs\<close> and sS = \<open>set cs = S\<close> and wS = \<open>w \<in> S\<close>
      have find_eq: "findPopup_loop ws w (baseIndex_loop w cs 0 0) cs 0 =
          find (isPopupOf ws w) (takeWhile (\<lambda>x. x \<noteq> w) cs)"
        using d sS wS by (simp add: findPopup_takeWhile)
      show ?case
      proof (cases "find (isPopupOf ws w) (takeWhile (\<lambda>x. x \<noteq> w) cs)")
        case None
        then have ret: "topoLoop ws w cs = Some cs"
          using find_eq by (subst topoLoop.simps) simp
        have "after_owner ws {w} cs"
          unfolding after_owner_def
        proof (intro allI impI)
          fix p c assume h: "p \<in> {w} \<and> p \<in> set cs \<and> c \<in> set cs \<and> isPopupOf ws p c"
          then have pw: "p = w" and c: "c \<in> set cs" and pop: "isPopupOf ws w c" by auto
          from None pop have "c \<notin> set (takeWhile (\<lambda>x. x \<noteq> w) cs)"
            by (auto simp: find_None_iff)
          then have "\<not> before cs c w" using d sS wS by (simp add: set_takeWhile_before)
          moreover have "c \<noteq> w" using pop noself by auto
          ultimately show "before cs p c"
            using before_total[of cs w c] d c sS wS pw by auto
        qed
        with ret d show ?thesis
          by (intro exI[of _ cs] exI[of _ "{}"]) (simp add: reorder_refl)
      next
        case (Some c)
        then have cin: "c \<in> set (takeWhile (\<lambda>x. x \<noteq> w) cs)" and pop: "isPopupOf ws w c"
          by (auto simp: find_Some_iff)
        from cin have cbw: "before cs c w" using d sS wS by (simp add: set_takeWhile_before)
        then have cS: "c \<in> S" using before_in_set sS by blast
        have cw: "c \<noteq> w" using pop noself by auto
        have own: "(w, c) \<in> owns ws S" using pop cS wS by (simp add: owns_def)
        let ?cs1 = "removeAll c cs @ [c]"
        have d1: "distinct ?cs1" using d by (simp add: distinct_removeAll)
        have s1: "set ?cs1 = S" using sS cS by auto
        from outer[of c ?cs1] own d1 s1 cS
        obtain R1 M1 where r1: "topoLoop ws c ?cs1 = Some R1"
          and m1: "M1 \<subseteq> (owns ws S)\<^sup>+ `` {c}"
          and ro1: "reorder M1 ?cs1 R1"
          and ao1: "after_owner ws (insert c M1) R1"
          by auto
        have dR1: "distinct R1" and sR1: "set R1 = S" using ro1 s1 by (simp_all add: reorder_def)
        have wM1: "w \<notin> M1"
        proof
          assume "w \<in> M1"
          with m1 have "(c, w) \<in> (owns ws S)\<^sup>+" by auto
          with own have "(w, w) \<in> (owns ws S)\<^sup>+" by (meson trancl_into_trancl2)
          with ac show False by (simp add: acyclic_def)
        qed
        have cM1: "c \<notin> M1"
        proof
          assume "c \<in> M1"
          with m1 have "(c, c) \<in> (owns ws S)\<^sup>+" by auto
          with ac show False by (simp add: acyclic_def)
        qed
        have wc1: "before ?cs1 w c" using d sS wS cw by (simp add: before_move_end)
        have wcR1: "before R1 w c"
          using ro1 wM1 cM1 wc1 unfolding reorder_def by blast
        have sub: "{x \<in> S. isPopupOf ws w x \<and> before R1 x w} \<subseteq>
                   {x \<in> S. isPopupOf ws w x \<and> before cs x w} - {c}"
        proof
          fix x assume "x \<in> {x \<in> S. isPopupOf ws w x \<and> before R1 x w}"
          then have xS: "x \<in> S" and xp: "isPopupOf ws w x" and xb: "before R1 x w" by auto
          have xM1: "x \<notin> M1"
          proof
            assume "x \<in> M1"
            with ro1 wM1 xS wS s1 have "before R1 w x" unfolding reorder_def by blast
            with xb dR1 show False using before_asym by blast
          qed
          have xc: "x \<noteq> c" using xb wcR1 dR1 before_asym by blast
          from ro1 xM1 wM1 xb have "before ?cs1 x w" unfolding reorder_def by blast
          then have "before cs x w" using xc cw by (simp add: before_move_other)
          with xS xp xc show "x \<in> {x \<in> S. isPopupOf ws w x \<and> before cs x w} - {c}" by simp
        qed
        have "c \<in> {x \<in> S. isPopupOf ws w x \<and> before cs x w}" using cS pop cbw by simp
        moreover have finS: "finite {x \<in> S. isPopupOf ws w x \<and> before cs x w}" using fin by simp
        ultimately have "card ({x \<in> S. isPopupOf ws w x \<and> before cs x w} - {c}) <
            card {x \<in> S. isPopupOf ws w x \<and> before cs x w}"
          by (meson card_Diff1_less)
        moreover have "card {x \<in> S. isPopupOf ws w x \<and> before R1 x w} \<le>
            card ({x \<in> S. isPopupOf ws w x \<and> before cs x w} - {c})"
          using sub finS by (meson card_mono finite_Diff)
        ultimately have lt: "card {x \<in> S. isPopupOf ws w x \<and> before R1 x w} < n"
          using less.prems(1) by simp
        from less.IH[OF lt refl dR1 sR1 wS]
        obtain R2 M2 where r2: "topoLoop ws w R1 = Some R2"
          and m2: "M2 \<subseteq> (owns ws S)\<^sup>+ `` {w}"
          and ro2: "reorder M2 R1 R2"
          and ao2: "after_owner ws (insert w M2) R2"
          by auto
        have ret: "topoLoop ws w cs = Some R2"
          using find_eq Some r1 r2 by (subst topoLoop.simps) simp
        have "reorder {c} cs ?cs1" using reorder_move[OF d, of c] cS sS by auto
        then have "reorder ({c} \<union> M1) cs R1" using ro1 by (rule reorder_trans)
        then have ro: "reorder (({c} \<union> M1) \<union> M2) cs R2" using ro2 by (rule reorder_trans)
        have "after_owner ws (insert c M1 \<union> insert w M2) R2"
          using ao1 ro2 ao2 by (rule after_owner_trans) auto
        moreover have "insert c M1 \<union> insert w M2 = insert w (({c} \<union> M1) \<union> M2)" by auto
        ultimately have ao: "after_owner ws (insert w (({c} \<union> M1) \<union> M2)) R2" by simp
        have "M1 \<subseteq> (owns ws S)\<^sup>+ `` {w}"
        proof
          fix x assume "x \<in> M1"
          with m1 have "(c, x) \<in> (owns ws S)\<^sup>+" by auto
          with own have "(w, x) \<in> (owns ws S)\<^sup>+" by (meson trancl_into_trancl2)
          then show "x \<in> (owns ws S)\<^sup>+ `` {w}" by simp
        qed
        moreover have "c \<in> (owns ws S)\<^sup>+ `` {w}" using own by auto
        ultimately have "({c} \<union> M1) \<union> M2 \<subseteq> (owns ws S)\<^sup>+ `` {w}" using m2 by simp
        with ret ro ao show ?thesis by blast
      qed
    qed
  qed
qed

lemma owner_first_reorder:
  assumes "reorder M cs R" "after_owner ws M R" "owner_first ws cs"
  shows "owner_first ws R"
  unfolding owner_first_def
proof (intro allI impI)
  fix p c assume h: "p \<in> set R \<and> c \<in> set R \<and> isPopupOf ws p c"
  have sets: "set R = set cs" using assms(1) by (simp add: reorder_def)
  show "before R p c"
  proof (cases "p \<in> M")
    case True
    with h assms(2) show ?thesis unfolding after_owner_def by blast
  next
    case False
    show ?thesis
    proof (cases "c \<in> M")
      case True
      with False h sets assms(1) show ?thesis unfolding reorder_def by blast
    next
      case c: False
      have "before cs p c" using h sets assms(3) unfolding owner_first_def by blast
      moreover have "before R p c = before cs p c"
        using False c assms(1) unfolding reorder_def by blast
      ultimately show ?thesis by simp
    qed
  qed
qed

lemma owner_first_acyclic:
  assumes "distinct cs" "owner_first ws cs"
  shows "acyclic (owns ws (set cs))"
proof -
  have "acyclic ((owns ws (set cs))\<inverse>)"
  proof (rule acyclicI_order[where f = "\<lambda>x. index_of x cs"])
    fix a b assume "(a, b) \<in> (owns ws (set cs))\<inverse>"
    then have "b \<in> set cs \<and> a \<in> set cs \<and> isPopupOf ws b a" by (simp add: owns_def)
    then have "before cs b a" using assms(2) unfolding owner_first_def by blast
    then show "index_of b cs < index_of a cs" using assms(1) by (simp add: before_index_of)
  qed
  then show ?thesis by simp
qed

lemma topoLoop_front:
  assumes "distinct cs" "w \<in> set cs" "acyclic (owns ws (set cs))"
  shows "\<exists>R M. topoLoop ws w (removeAll w cs @ [w]) = Some R \<and> w \<in> M \<and>
           M - {w} \<subseteq> (owns ws (set cs))\<^sup>+ `` {w} \<and> reorder M cs R \<and> after_owner ws M R"
proof -
  let ?cs1 = "removeAll w cs @ [w]"
  have d1: "distinct ?cs1" using assms(1) by (simp add: distinct_removeAll)
  have s1: "set ?cs1 = set cs" using assms(2) by auto
  from topoLoop_returns[of "set cs" ws ?cs1 w] assms d1 s1
  obtain R M where r: "topoLoop ws w ?cs1 = Some R"
    and m: "M \<subseteq> (owns ws (set cs))\<^sup>+ `` {w}"
    and ro: "reorder M ?cs1 R" and ao: "after_owner ws (insert w M) R"
    by auto
  have "reorder {w} cs ?cs1" using reorder_move[OF assms(1), of w] assms(2) by auto
  then have "reorder ({w} \<union> M) cs R" using ro by (rule reorder_trans)
  with r m ao show ?thesis
    by (intro exI[of _ R] exI[of _ "{w} \<union> M"]) auto
qed

lemma moveWindowToFront_step:
  assumes "distinct (mChildren s)" "w \<in> set (mChildren s)"
    and "popups_above (widgets s) (mChildren s)"
  shows "\<exists>s'. moveWindowToFront w s = Some s' \<and> widgets s' = widgets s \<and>
           distinct (mChildren s') \<and> set (mChildren s') = set (mChildren s) \<and>
           popups_above (widgets s') (mChildren s')"
proof -
  have of: "owner_first (widgets s) (mChildren s)"
    using assms(1,3) by (simp add: popups_above_owner_first)
  then have ac: "acyclic (owns (widgets s) (set (mChildren s)))"
    using assms(1) by (rule owner_first_acyclic[rotated])
  from topoLoop_front[OF assms(1,2) ac]
  obtain R M where r: "topoLoop (widgets s) w (removeAll w (mChildren s) @ [w]) = Some R"
    and ro: "reorder M (mChildren s) R" and ao: "after_owner (widgets s) M R"
    by blast
  have dR: "distinct R" and sR: "set R = set (mChildren s)" using ro by (simp_all add: reorder_def)
  have "owner_first (widgets s) R" using ro ao of by (rule owner_first_reorder)
  then have "popups_above (widgets s) R" using dR by (simp add: popups_above_owner_first)
  with r dR sR show ?thesis by (simp add: moveWindowToFront_def)
qed

lemma owner_first_trancl:
  assumes "distinct cs" "owner_first ws cs" "(a, b) \<in> (owns ws (set cs))\<^sup>+"
  shows "before cs a b"
  using assms(3)
proof (induction rule: trancl_induct)
  case (base y)
  then show ?case using assms(2) by (simp add: owns_def owner_first_def)
next
  case (step y z)
  from step.hyps(2) have "before cs y z" using assms(2) by (simp add: owns_def owner_first_def)
  with step.IH show ?case using assms(1) before_trans by blast
qed

lemma moveWindowsToFront_steps:
  assumes "distinct (mChildren s)" "set windows \<subseteq> set (mChildren s)"
    and "popups_above (widgets s) (mChildren s)"
  shows "\<exists>s'. moveWindowsToFront windows s = Some s' \<and> widgets s' = widgets s \<and>
           distinct (mChildren s') \<and> set (mChildren s') = set (mChildren s) \<and>
           popups_above (widgets s') (mChildren s')"
  using assms
proof (induction windows arbitrary: s)
  case Nil
  then show ?case by simp
next
  case (Cons w windows)
  from Cons.prems have "w \<in> set (mChildren s)" by simp
  from moveWindowToFront_step[OF Cons.prems(1) this Cons.prems(3)]
  obtain s1 where s1: "moveWindowToFront w s = Some s1" "widgets s1 = widgets s"
    "distinct (mChildren s1)" "set (mChildren s1) = set (mChildren s)"
    "popups_above (widgets s1) (mChildren s1)"
    by blast
  from Cons.IH[of s1] s1 Cons.prems(2)
  obtain s' where "moveWindowsToFront windows s1 = Some s'" "widgets s' = widgets s1"
    "distinct (mChildren s')" "set (mChildren s') = set (mChildren s1)"
    "popups_above (widgets s') (mChildren s')"
    by auto
  with s1 show ?case by simp
qed

text \<open>
  C1 (as the code has it). Let the child sequence hold no widget twice and let every popup
  in it stand at a greater index than its owner. Then every call in any sequence of
  \<^verbatim>\<open>moveWindowToFront\<close> calls on children returns, the sequence is a permutation of the
  old one, and afterwards again every popup whose owner is in the sequence stands at a
  greater index than its owner, also along chains of nested popups.
\<close>

theorem popups_stay_above:
  assumes "distinct (mChildren s)" "set windows \<subseteq> set (mChildren s)"
    and "popups_above (widgets s) (mChildren s)"
  shows "\<exists>s'. moveWindowsToFront windows s = Some s' \<and>
           popups_above (widgets s') (mChildren s') \<and>
           (\<forall>a b. (a, b) \<in> (owns (widgets s') (set (mChildren s')))\<^sup>+ \<longrightarrow>
                  index_of a (mChildren s') < index_of b (mChildren s')) \<and>
           mset (mChildren s') = mset (mChildren s)"
proof -
  from moveWindowsToFront_steps[OF assms]
  obtain s' where s': "moveWindowsToFront windows s = Some s'"
    "distinct (mChildren s')" "set (mChildren s') = set (mChildren s)"
    "popups_above (widgets s') (mChildren s')"
    by blast
  have of: "owner_first (widgets s') (mChildren s')"
    using s'(2,4) by (simp add: popups_above_owner_first)
  have "index_of a (mChildren s') < index_of b (mChildren s')"
    if "(a, b) \<in> (owns (widgets s') (set (mChildren s')))\<^sup>+" for a b
    using owner_first_trancl[OF s'(2) of that] s'(2) by (simp add: before_index_of)
  moreover have "mset (mChildren s') = mset (mChildren s)"
    using s'(2,3) assms(1) by (simp add: set_eq_iff_mset_eq_distinct)
  ultimately show ?thesis using s'(1,4) by blast
qed

lemma example_isPopupOf: "isPopupOf example_widgets p c = (p = 1 \<and> c = 3)"
  by (auto simp add: isPopupOf_def is_Popup_def example_widgets_def plain_widget_def)

lemma example_popups_above: "popups_above example_widgets [1, 3, 4]"
proof -
  have "owner_first example_widgets [1, 3, 4]"
    by (simp add: owner_first_def example_isPopupOf before_def)
  then show ?thesis by (simp add: popups_above_owner_first)
qed

theorem popups_stay_above_witness:
  "\<exists>s'. moveWindowsToFront [1, 4, 1] example_state = Some s' \<and>
         popups_above (widgets s') (mChildren s') \<and>
         (\<forall>a b. (a, b) \<in> (owns (widgets s') (set (mChildren s')))\<^sup>+ \<longrightarrow>
                index_of a (mChildren s') < index_of b (mChildren s')) \<and>
         mset (mChildren s') = mset (mChildren example_state)"
  using popups_stay_above[of example_state "[1, 4, 1]"] example_popups_above
  by (simp add: example_state_def)

text \<open>
  Without the invariant beforehand the claim fails: with the popup 3 before its owner 1,
  bringing the unrelated window 4 to the front leaves the popup at index 0, below its owner
  at index 1. And with two popups that own each other the call never returns.
\<close>

lemma cyclic_never_returns:
  assumes "topoLoop ws w cs = Some R"
  shows "\<not> (ws = cyclic_widgets \<and> (w = 5 \<and> cs = [6, 5] \<or> w = 6 \<and> cs = [5, 6]))"
  using assms
proof (rule topoLoop.raw_induct[rotated 1,
      where P = "\<lambda>ws w cs R. \<not> (ws = cyclic_widgets \<and> (w = 5 \<and> cs = [6, 5] \<or> w = 6 \<and> cs = [5, 6]))"])
  fix f ws w cs R
  assume IH: "\<And>ws w cs R. f ws w cs = Some R \<Longrightarrow>
      \<not> (ws = cyclic_widgets \<and> (w = 5 \<and> cs = [6, 5] \<or> w = 6 \<and> cs = [5, 6]))"
    and body: "(case findPopup_loop ws w (baseIndex_loop w cs 0 0) cs 0 of
        None \<Rightarrow> Some cs
      | Some pw \<Rightarrow> Option.bind (f ws pw (removeAll pw cs @ [pw])) (f ws w)) = Some R"
  show "\<not> (ws = cyclic_widgets \<and> (w = 5 \<and> cs = [6, 5] \<or> w = 6 \<and> cs = [5, 6]))"
  proof
    assume h: "ws = cyclic_widgets \<and> (w = 5 \<and> cs = [6, 5] \<or> w = 6 \<and> cs = [5, 6])"
    then consider "w = 5" "cs = [6, 5]" | "w = 6" "cs = [5, 6]" by blast
    then show False
    proof cases
      case 1
      with h body obtain R1 where "f cyclic_widgets 6 [5, 6] = Some R1"
        by (auto simp add: cyclic_widgets_def isPopupOf_def is_Popup_def plain_widget_def
            split: Option.bind_splits)
      with IH show False by blast
    next
      case 2
      with h body obtain R1 where "f cyclic_widgets 5 [6, 5] = Some R1"
        by (auto simp add: cyclic_widgets_def isPopupOf_def is_Popup_def plain_widget_def
            split: Option.bind_splits)
      with IH show False by blast
    qed
  qed
qed

theorem popups_above_counterexample:
  "moveWindowToFront 4 (example_state\<lparr>mChildren := [3, 1, 4]\<rparr>)
     = Some (example_state\<lparr>mChildren := [3, 1, 4]\<rparr>)
   \<and> isPopupOf example_widgets ([3, 1, 4] ! 1) ([3, 1, 4] ! 0)
   \<and> \<not> popups_above example_widgets [3, 1, 4]
   \<and> moveWindowToFront 5 (example_state\<lparr>mChildren := [5, 6], widgets := cyclic_widgets\<rparr>) = None"
proof -
  have a: "moveWindowToFront 4 (example_state\<lparr>mChildren := [3, 1, 4]\<rparr>)
     = Some (example_state\<lparr>mChildren := [3, 1, 4]\<rparr>)"
    by (simp add: moveWindowToFront_def topoLoop.simps example_state_def example_isPopupOf)
  have b: "isPopupOf example_widgets ([3, 1, 4] ! 1) ([3, 1, 4] ! 0)"
    by (simp add: example_isPopupOf)
  have c: "\<not> popups_above example_widgets [3, 1, 4]"
  proof
    assume "popups_above example_widgets [3, 1, 4]"
    then have "(1::nat) < 0"
      using b unfolding popups_above_def
      by (metis length_Cons list.size(3) zero_less_Suc One_nat_def Suc_less_eq)
    then show False by simp
  qed
  have "topoLoop cyclic_widgets 5 [6, 5] = None"
    using cyclic_never_returns[of cyclic_widgets 5 "[6, 5]"]
    by (cases "topoLoop cyclic_widgets 5 [6, 5]") auto
  then have d: "moveWindowToFront 5 (example_state\<lparr>mChildren := [5, 6], widgets := cyclic_widgets\<rparr>) = None"
    by (simp add: moveWindowToFront_def)
  from a b c d show ?thesis by simp
qed

text \<open>
  C10 (as the code has it). For a child sequence that holds no widget twice and holds the
  target, with no cycle of popup ownership among the children, \<^verbatim>\<open>moveWindowToFront\<close>
  returns a permutation of the sequence. The index of the target does not decrease when
  no popup owned by the target, directly or through other popups of the sequence, stood
  before it.
\<close>

theorem moveWindowToFront_permutes:
  assumes "distinct (mChildren s)" "window \<in> set (mChildren s)"
    and "acyclic (owns (widgets s) (set (mChildren s)))"
  shows "\<exists>s'. moveWindowToFront window s = Some s' \<and>
           mset (mChildren s') = mset (mChildren s) \<and>
           ((\<forall>x. (window, x) \<in> (owns (widgets s) (set (mChildren s)))\<^sup>+ \<longrightarrow>
                  index_of window (mChildren s) < index_of x (mChildren s)) \<longrightarrow>
            index_of window (mChildren s) \<le> index_of window (mChildren s'))"
proof -
  let ?cs = "mChildren s"
  from topoLoop_front[OF assms]
  obtain R M where r: "topoLoop (widgets s) window (removeAll window ?cs @ [window]) = Some R"
    and wM: "window \<in> M"
    and m: "M - {window} \<subseteq> (owns (widgets s) (set ?cs))\<^sup>+ `` {window}"
    and ro: "reorder M ?cs R"
    by blast
  have dR: "distinct R" and sR: "set R = set ?cs" using ro by (simp_all add: reorder_def)
  have perm: "mset R = mset ?cs" using dR sR assms(1) by (simp add: set_eq_iff_mset_eq_distinct)
  have idx: "index_of window ?cs \<le> index_of window R"
    if h: "\<forall>x. (window, x) \<in> (owns (widgets s) (set ?cs))\<^sup>+ \<longrightarrow>
                  index_of window ?cs < index_of x ?cs"
  proof -
    have sub: "set (takeWhile (\<lambda>x. x \<noteq> window) ?cs) \<subseteq> set (takeWhile (\<lambda>x. x \<noteq> window) R)"
    proof
      fix a assume "a \<in> set (takeWhile (\<lambda>x. x \<noteq> window) ?cs)"
      then have b: "before ?cs a window" using assms(1,2) by (simp add: set_takeWhile_before)
      then have ia: "index_of a ?cs < index_of window ?cs" and a: "a \<in> set ?cs"
        using assms(1) by (simp_all add: before_index_of)
      have "a \<noteq> window" using ia by auto
      moreover have "(window, a) \<notin> (owns (widgets s) (set ?cs))\<^sup>+" using h ia by fastforce
      ultimately have "a \<notin> M" using m by auto
      with ro a assms(2) wM have "before R a window" unfolding reorder_def by blast
      then show "a \<in> set (takeWhile (\<lambda>x. x \<noteq> window) R)"
        using dR sR assms(2) by (simp add: set_takeWhile_before)
    qed
    have "index_of window ?cs = card (set (takeWhile (\<lambda>x. x \<noteq> window) ?cs))"
      using assms(1) by (simp add: index_of_def distinct_card distinct_takeWhile)
    also have "\<dots> \<le> card (set (takeWhile (\<lambda>x. x \<noteq> window) R))"
      using sub by (simp add: card_mono)
    also have "\<dots> = index_of window R"
      using dR by (simp add: index_of_def distinct_card distinct_takeWhile)
    finally show ?thesis .
  qed
  from r perm idx show ?thesis by (simp add: moveWindowToFront_def)
qed

lemma example_owns: "owns example_widgets S \<subseteq> {(1, 3)}"
  by (auto simp add: owns_def example_isPopupOf)

lemma example_acyclic: "acyclic (owns example_widgets S)"
proof (rule acyclic_subset[OF _ example_owns])
  show "acyclic {(1::nat, 3::nat)}"
    by (rule acyclicI_order[where f = "\<lambda>x. 10 - x"]) auto
qed

lemma example_owns_trancl: "(a, b) \<in> (owns example_widgets S)\<^sup>+ \<Longrightarrow> b = 3"
  by (erule trancl.cases) (auto simp add: owns_def example_isPopupOf)

theorem moveWindowToFront_permutes_witness:
  "\<exists>s'. moveWindowToFront 1 example_state = Some s' \<and>
         mset (mChildren s') = mset (mChildren example_state) \<and>
         index_of 1 (mChildren example_state) \<le> index_of 1 (mChildren s')"
proof -
  have "\<forall>x. (1, x) \<in> (owns (widgets example_state) (set (mChildren example_state)))\<^sup>+ \<longrightarrow>
          index_of 1 (mChildren example_state) < index_of x (mChildren example_state)"
    by (auto dest!: example_owns_trancl simp add: example_state_def index_of_def)
  moreover have "acyclic (owns (widgets example_state) (set (mChildren example_state)))"
    by (simp add: example_state_def example_acyclic)
  moreover have "distinct (mChildren example_state)" "1 \<in> set (mChildren example_state)"
    by (simp_all add: example_state_def)
  ultimately show ?thesis
    using moveWindowToFront_permutes[of example_state 1] by blast
qed

text \<open>
  A popup of the target that stands before it is moved behind it, and the target ends at
  a smaller index than it had: from popup 3, window 1 to window 1, popup 3.
\<close>

theorem index_decreases_counterexample:
  "moveWindowToFront 1 (example_state\<lparr>mChildren := [3, 1]\<rparr>)
     = Some (example_state\<lparr>mChildren := [1, 3]\<rparr>)
   \<and> index_of 1 [1, 3] < index_of 1 [3, 1]"
  by (simp add: moveWindowToFront_def topoLoop.simps example_state_def example_isPopupOf index_of_def)

subsection \<open>Focus\<close>

lemma same_structure_refl: "same_structure ws ws"
  by (simp add: same_structure_def)

lemma same_structure_trans:
  "same_structure a b \<Longrightarrow> same_structure b c \<Longrightarrow> same_structure a c"
  by (simp add: same_structure_def)

lemma same_structure_chain:
  "same_structure ws ws' \<Longrightarrow> is_chain ws' a xs = is_chain ws a xs"
proof (induction xs arbitrary: a)
  case Nil
  then show ?case by (cases a) simp_all
next
  case (Cons x xs)
  then show ?case by (cases a) (simp_all add: same_structure_def)
qed

lemma same_structure_owns:
  "same_structure ws ws' \<Longrightarrow> owns ws' S = owns ws S"
  by (simp add: owns_def isPopupOf_def is_Popup_def same_structure_def)

lemma chain_unique: "is_chain ws a xs \<Longrightarrow> is_chain ws a ys \<Longrightarrow> xs = ys"
proof (induction xs arbitrary: a ys)
  case Nil
  then show ?case by (cases a; cases ys) simp_all
next
  case (Cons x xs)
  then show ?case by (cases a; cases ys) auto
qed

lemma chain_suffix:
  "is_chain ws a xs \<Longrightarrow> x \<in> set xs \<Longrightarrow> \<exists>pre suf. xs = pre @ suf \<and> is_chain ws (Some x) suf"
proof (induction xs arbitrary: a)
  case Nil
  then show ?case by simp
next
  case (Cons y ys)
  from Cons.prems(1) obtain w where a: "a = Some w" "y = w" "is_chain ws (parent (ws w)) ys"
    by (cases a) auto
  show ?case
  proof (cases "x = y")
    case True
    with Cons.prems(1) a show ?thesis by (intro exI[of _ "[]"] exI[of _ "y # ys"]) simp
  next
    case False
    with Cons.prems(2) have "x \<in> set ys" by simp
    from Cons.IH[OF a(3) this] obtain pre suf where "ys = pre @ suf" "is_chain ws (Some x) suf"
      by blast
    then show ?thesis by (intro exI[of _ "y # pre"] exI[of _ suf]) simp
  qed
qed

lemma chain_distinct: "is_chain ws a xs \<Longrightarrow> distinct xs"
proof (induction xs arbitrary: a)
  case Nil
  then show ?case by simp
next
  case (Cons y ys)
  from Cons.prems obtain w where a: "a = Some w" "y = w" "is_chain ws (parent (ws w)) ys"
    by (cases a) auto
  have "y \<notin> set ys"
  proof
    assume "y \<in> set ys"
    from chain_suffix[OF a(3) this] obtain pre suf where ps: "ys = pre @ suf" "is_chain ws (Some y) suf"
      by blast
    from Cons.prems a have "is_chain ws (Some y) (y # ys)" by simp
    with ps(2) have "suf = y # ys" by (rule chain_unique)
    with ps(1) have "length ys = length pre + Suc (length ys)" by (metis length_append length_Cons)
    then show False by simp
  qed
  with Cons.IH[OF a(3)] show ?case by simp
qed

lemma chain_last_root: "is_chain ws (Some w) xs \<Longrightarrow> xs \<noteq> [] \<and> hd xs = w \<and> parent (ws (last xs)) = None"
proof (induction xs arbitrary: w)
  case Nil
  then show ?case by simp
next
  case (Cons y ys)
  then have yw: "y = w" and ch: "is_chain ws (parent (ws w)) ys" by auto
  show ?case
  proof (cases "parent (ws w)")
    case None
    with ch yw show ?thesis by simp
  next
    case (Some p)
    with ch Cons.IH[of p] yw show ?thesis by auto
  qed
qed

lemma chain_root_last:
  assumes "is_chain ws a xs" "x \<in> set xs" "parent (ws x) = None"
  shows "last xs = x"
proof -
  from chain_suffix[OF assms(1,2)] obtain pre suf where ps: "xs = pre @ suf" "is_chain ws (Some x) suf"
    by blast
  from ps(2) assms(3) have "suf = [x]" by (cases suf) auto
  with ps(1) show ?thesis by simp
qed

lemma collect_loop_chain:
  "is_chain ws a xs \<Longrightarrow>
     \<exists>win. collect_loop ws a path window = Some (path @ xs, win) \<and>
       (win = window \<or> (\<exists>x. x \<in> set xs \<and> win = Some x))"
proof (induction xs arbitrary: a path window)
  case Nil
  then have "a = None" by (cases a) simp_all
  then show ?case by (subst collect_loop.simps) simp
next
  case (Cons y ys)
  from Cons.prems obtain w where a: "a = Some w" "y = w" "is_chain ws (parent (ws w)) ys"
    by (cases a) auto
  from Cons.IH[OF a(3), of "path @ [w]" "if is_Window (ws w) then Some w else window"]
  obtain win where w: "collect_loop ws (parent (ws w)) (path @ [w])
        (if is_Window (ws w) then Some w else window) = Some ((path @ [w]) @ ys, win)"
     and c: "win = (if is_Window (ws w) then Some w else window) \<or> (\<exists>x. x \<in> set ys \<and> win = Some x)"
    by blast
  have "collect_loop ws a path window = Some (path @ y # ys, win)"
    using a w by (subst collect_loop.simps) simp
  moreover have "win = window \<or> (\<exists>x. x \<in> set (y # ys) \<and> win = Some x)"
    using c a by (auto split: if_splits)
  ultimately show ?case by blast
qed

lemma focusEvent_structure: "same_structure (widgets s) (widgets (focusEvent w f s))"
  by (simp add: focusEvent_def same_structure_def)

lemma lostFocus_children: "mChildren (lostFocus_loop xs s) = mChildren s"
  by (induction xs arbitrary: s) (simp_all add: focusEvent_def)

lemma lostFocus_structure: "same_structure (widgets s) (widgets (lostFocus_loop xs s))"
proof (induction xs arbitrary: s)
  case Nil
  show ?case by (simp add: same_structure_refl)
next
  case (Cons x xs)
  show ?case
  proof (cases "focused (widgets s x)")
    case False
    with Cons[of s] show ?thesis by simp
  next
    case True
    have "same_structure (widgets s) (widgets (focusEvent x False s))"
      by (rule focusEvent_structure)
    then have "same_structure (widgets s) (widgets (lostFocus_loop xs (focusEvent x False s)))"
      using Cons[of "focusEvent x False s"] by (rule same_structure_trans)
    with True show ?thesis by simp
  qed
qed

lemma lostFocus_delivered:
  "\<exists>lost. delivered (lostFocus_loop xs s) = delivered s @ map (\<lambda>w. FocusEvent w False) lost \<and>
     distinct lost \<and> set lost = {w \<in> set xs. focused (widgets s w)}"
proof (induction xs arbitrary: s)
  case Nil
  show ?case by simp
next
  case (Cons x xs)
  show ?case
  proof (cases "focused (widgets s x)")
    case False
    from Cons[of s] obtain lost where
      "delivered (lostFocus_loop xs s) = delivered s @ map (\<lambda>w. FocusEvent w False) lost"
      "distinct lost" "set lost = {w \<in> set xs. focused (widgets s w)}" by blast
    with False show ?thesis by (intro exI[of _ lost]) auto
  next
    case True
    let ?s1 = "focusEvent x False s"
    from Cons[of ?s1] obtain lost where l:
      "delivered (lostFocus_loop xs ?s1) = delivered ?s1 @ map (\<lambda>w. FocusEvent w False) lost"
      "distinct lost" "set lost = {w \<in> set xs. focused (widgets ?s1 w)}" by blast
    have f: "focused (widgets ?s1 w) = (w \<noteq> x \<and> focused (widgets s w))" for w
      by (simp add: focusEvent_def)
    have "set lost = {w \<in> set xs. w \<noteq> x \<and> focused (widgets s w)}" using l(3) f by simp
    with l(1,2) True show ?thesis
      by (intro exI[of _ "x # lost"]) (auto simp add: focusEvent_def)
  qed
qed

lemma gainFocus_children: "mChildren (gainFocus_loop xs s) = mChildren s"
  by (induction xs arbitrary: s) (simp_all add: focusEvent_def)

lemma gainFocus_path: "mFocusPath (gainFocus_loop xs s) = mFocusPath s"
  by (induction xs arbitrary: s) (simp_all add: focusEvent_def)

lemma gainFocus_delivered:
  "delivered (gainFocus_loop xs s) = delivered s @ map (\<lambda>w. FocusEvent w True) xs"
  by (induction xs arbitrary: s) (simp_all add: focusEvent_def)

lemma gainFocus_structure: "same_structure (widgets s) (widgets (gainFocus_loop xs s))"
proof (induction xs arbitrary: s)
  case Nil
  show ?case by (simp add: same_structure_refl)
next
  case (Cons x xs)
  have "same_structure (widgets s) (widgets (focusEvent x True s))"
    by (rule focusEvent_structure)
  then have "same_structure (widgets s) (widgets (gainFocus_loop xs (focusEvent x True s)))"
    using Cons[of "focusEvent x True s"] by (rule same_structure_trans)
  then show ?case by simp
qed

lemma owns_mono: "S \<subseteq> T \<Longrightarrow> owns ws S \<subseteq> owns ws T"
  by (auto simp: owns_def)

lemma moveWindowToFront_returns:
  assumes "distinct (mChildren s)" "acyclic (owns (widgets s) (insert w (set (mChildren s))))"
  shows "\<exists>R. moveWindowToFront w s = Some (s\<lparr>mChildren := R\<rparr>)"
proof -
  let ?cs1 = "removeAll w (mChildren s) @ [w]"
  have "distinct ?cs1" using assms(1) by (simp add: distinct_removeAll)
  moreover have "set ?cs1 = insert w (set (mChildren s))" by auto
  ultimately obtain R where "topoLoop (widgets s) w ?cs1 = Some R"
    using topoLoop_returns[of "insert w (set (mChildren s))" "widgets s" ?cs1 w] assms(2) by auto
  then show ?thesis by (intro exI[of _ R]) (simp add: moveWindowToFront_def)
qed

text \<open>
  C2 (as the code has it). Let \<open>path\<close> be the ancestor chain of \<open>W\<close>: \<open>W\<close>, its
  parent and so on up to and including the root, the widget without a parent (for a widget
  of the screen's tree, the screen itself). With a child sequence without repetitions and
  no cycle of popup ownership among the children and the chain, \<^verbatim>\<open>updateFocus(W)\<close>
  returns, and the focus path is \<open>path\<close>, stored leaf first, the root included. Every
  widget of the old path whose \<^verbatim>\<open>focused()\<close> flag was set receives exactly one notification
  that it lost the focus, whether or not it is on the new path, and no other widget
  receives one; then every widget of the new path, the root first and the leaf last,
  receives exactly one notification that it gained the focus.
\<close>

theorem updateFocus_path:
  assumes ch: "is_chain (widgets s) (Some W) path"
    and d: "distinct (mChildren s)"
    and ac: "acyclic (owns (widgets s) (set (mChildren s) \<union> set path))"
  shows "\<exists>s' lost. updateFocus (Some W) s = Some s' \<and>
           mFocusPath s' = path \<and> hd path = W \<and> parent (widgets s (last path)) = None \<and>
           (screen s \<in> set path \<and> parent (widgets s (screen s)) = None \<longrightarrow>
              last path = screen s) \<and>
           distinct path \<and>
           delivered s' = delivered s @ map (\<lambda>w. FocusEvent w False) lost @
                            map (\<lambda>w. FocusEvent w True) (rev path) \<and>
           distinct lost \<and> set lost = {w \<in> set (mFocusPath s). focused (widgets s w)}"
proof -
  let ?s1 = "(lostFocus_loop (mFocusPath s) s)\<lparr>mFocusPath := []\<rparr>"
  have st1: "same_structure (widgets s) (widgets ?s1)" using lostFocus_structure by simp
  then have ch1: "is_chain (widgets ?s1) (Some W) path" using ch by (simp add: same_structure_chain)
  from collect_loop_chain[OF ch1, of "[]" None]
  obtain win where col: "collect_loop (widgets ?s1) (Some W) [] None = Some (path, win)"
    and win: "win = None \<or> (\<exists>x. x \<in> set path \<and> win = Some x)" by auto
  let ?s2 = "(lostFocus_loop (mFocusPath s) s)\<lparr>mFocusPath := path\<rparr>"
  let ?s3 = "gainFocus_loop (rev path) ?s2"
  from lostFocus_delivered[of "mFocusPath s" s] obtain lost where
    l: "delivered (lostFocus_loop (mFocusPath s) s) = delivered s @ map (\<lambda>w. FocusEvent w False) lost"
      "distinct lost" "set lost = {w \<in> set (mFocusPath s). focused (widgets s w)}" by blast
  have del3: "delivered ?s3 = delivered s @ map (\<lambda>w. FocusEvent w False) lost @
                            map (\<lambda>w. FocusEvent w True) (rev path)"
    using l(1) by (simp add: gainFocus_delivered)
  have path3: "mFocusPath ?s3 = path" by (simp add: gainFocus_path)
  have ch3: "mChildren ?s3 = mChildren s" by (simp add: gainFocus_children lostFocus_children)
  have "same_structure (widgets ?s2) (widgets ?s3)" by (rule gainFocus_structure)
  with st1 have st3: "same_structure (widgets s) (widgets ?s3)"
    using same_structure_trans by fastforce
  have upd: "updateFocus (Some W) s = (case win of None \<Rightarrow> Some ?s3 | Some w \<Rightarrow> moveWindowToFront w ?s3)"
    using col by (cases win) (simp_all add: updateFocus_def Let_def)
  have "\<exists>s'. updateFocus (Some W) s = Some s' \<and> mFocusPath s' = path \<and> delivered s' = delivered ?s3"
  proof (cases win)
    case None
    with upd path3 show ?thesis by simp
  next
    case (Some w)
    with win have wp: "w \<in> set path" by auto
    have "owns (widgets ?s3) (insert w (set (mChildren ?s3))) = owns (widgets s) (insert w (set (mChildren s)))"
      using st3 ch3 by (simp add: same_structure_owns)
    moreover have "owns (widgets s) (insert w (set (mChildren s))) \<subseteq> owns (widgets s) (set (mChildren s) \<union> set path)"
      using wp by (intro owns_mono) auto
    ultimately have "acyclic (owns (widgets ?s3) (insert w (set (mChildren ?s3))))"
      using ac acyclic_subset by metis
    moreover have "distinct (mChildren ?s3)" using d ch3 by simp
    ultimately obtain R where "moveWindowToFront w ?s3 = Some (?s3\<lparr>mChildren := R\<rparr>)"
      using moveWindowToFront_returns by blast
    with upd Some path3 show ?thesis by simp
  qed
  moreover have "screen s \<in> set path \<and> parent (widgets s (screen s)) = None \<longrightarrow>
      last path = screen s"
    using chain_root_last[OF ch] by blast
  ultimately show ?thesis
    using del3 l(2,3) chain_distinct[OF ch] chain_last_root[OF ch] by auto
qed

theorem updateFocus_path_witness:
  "\<exists>s' lost. updateFocus (Some 2) example_state = Some s' \<and>
           mFocusPath s' = [2, 1, 0] \<and> hd [2, 1, 0] = (2::nat) \<and>
           parent (widgets example_state (last [2, 1, 0])) = None \<and>
           last [2, 1, 0] = screen example_state \<and>
           distinct [2::nat, 1, 0] \<and>
           delivered s' = delivered example_state @ map (\<lambda>w. FocusEvent w False) lost @
                            map (\<lambda>w. FocusEvent w True) (rev [2, 1, 0]) \<and>
           distinct lost \<and>
           set lost = {w \<in> set (mFocusPath example_state). focused (widgets example_state w)}"
proof -
  have "is_chain (widgets example_state) (Some 2) [2, 1, 0]"
    by (simp add: example_state_def example_widgets_def plain_widget_def)
  moreover have "distinct (mChildren example_state)" by (simp add: example_state_def)
  moreover have "acyclic (owns (widgets example_state) (set (mChildren example_state) \<union> set [2, 1, 0]))"
    by (simp add: example_state_def example_acyclic)
  moreover have "screen example_state \<in> set [2, 1, 0] \<and>
      parent (widgets example_state (screen example_state)) = None"
    by (simp add: example_state_def example_widgets_def plain_widget_def)
  ultimately show ?thesis
    using updateFocus_path[of example_state 2 "[2, 1, 0]"] by blast
qed

text \<open>
  The path does not stop short of the root: the focus path of button 2 is the button, window
  1 and the screen 0, and the screen is notified as well.
\<close>

theorem updateFocus_root_counterexample:
  "map_option mFocusPath (updateFocus (Some 2) example_state) = Some [2, 1, 0]
   \<and> screen example_state = 0
   \<and> map_option delivered (updateFocus (Some 2) example_state) =
       Some [FocusEvent 2 False, FocusEvent 1 False, FocusEvent 0 False,
             FocusEvent 0 True, FocusEvent 1 True, FocusEvent 2 True]"
  by (simp add: updateFocus_def collect_loop.simps moveWindowToFront_def topoLoop.simps
      example_state_def example_widgets_def plain_widget_def focusEvent_def Let_def is_Window_def
      isPopupOf_def is_Popup_def)

end
